theory Spec2Isabelle
  imports Main "HOL-Library.Product_Lexorder" "HOL-Library.Sublist" "HOL-Library.Multiset"
begin

section \<open>Python list primitives\<close>

text \<open>
  The hull code reads \<^verbatim>\<open>lower[-2]\<close>, \<^verbatim>\<open>lower[-1]\<close> and calls \<^verbatim>\<open>lower.pop()\<close>.
  In Python each of them raises \<^verbatim>\<open>IndexError\<close> on a list that is too short, so each
  is a function into a sum type here, with \<open>Inl\<close> for the exception.
\<close>

datatype py_error = IndexError

definition py_index :: "'a list \<Rightarrow> int \<Rightarrow> py_error + 'a" where
  "py_index xs i =
     (if 0 \<le> i \<and> i < int (length xs) then Inr (xs ! nat i)
      else if i < 0 \<and> - i \<le> int (length xs) then Inr (xs ! nat (int (length xs) + i))
      else Inl IndexError)"

definition py_pop :: "'a list \<Rightarrow> py_error + 'a list" where
  "py_pop xs = (case xs of [] \<Rightarrow> Inl IndexError | _ \<Rightarrow> Inr (butlast xs))"

section \<open>Python numbers\<close>

text \<open>
  The hull code computes with \<^verbatim>\<open>-\<close> and \<^verbatim>\<open>*\<close> and compares with \<^verbatim>\<open>0\<close>. What the two
  operators do depends on the numbers they are given: on Python integers they are exact,
  on floating-point numbers each of them rounds its result to the nearest double. The
  model takes the two operators as a parameter.
\<close>

record 'a number_ops =
  py_sub :: "'a \<Rightarrow> 'a \<Rightarrow> 'a"
  py_mul :: "'a \<Rightarrow> 'a \<Rightarrow> 'a"

definition exact :: "'a::ring number_ops" where
  "exact = \<lparr>py_sub = (\<lambda>a b. a - b), py_mul = (\<lambda>a b. a * b)\<rparr>"

text \<open>
  A double is an integer of at most 53 bits times a power of two, so the finitely many
  doubles of an input are integer multiples of one power of two, their unit. Taking that
  unit as 1 turns them into integers; a difference of two of them is a multiple of the
  unit, a product a multiple of its square. Rounding to the nearest double keeps the 53
  leading bits of a number, the remainder being rounded to nearest and a tie to the even
  neighbour, and does not depend on the unit. This is the arithmetic of doubles as long
  as no result leaves the range of the normal doubles.
\<close>

function bit_length :: "int \<Rightarrow> int" where
  "bit_length n = (if n \<le> 0 then 0 else 1 + bit_length (n div 2))"
  by pat_completeness auto
termination
  by (relation "measure nat") auto

definition round53 :: "int \<Rightarrow> int" where
  "round53 n =
     (if bit_length \<bar>n\<bar> \<le> 53 then n
      else
        let d = 2 ^ nat (bit_length \<bar>n\<bar> - 53);
            q = \<bar>n\<bar> div d;
            r = \<bar>n\<bar> mod d
        in sgn n * d *
           (if 2 * r < d then q else if d < 2 * r then q + 1 else if even q then q else q + 1))"

definition binary64 :: "int number_ops" where
  "binary64 = \<lparr>py_sub = (\<lambda>a b. round53 (a - b)), py_mul = (\<lambda>a b. round53 (a * b))\<rparr>"

section \<open>The convex hull of \<^verbatim>\<open>utils/map.py\<close>\<close>

text \<open>
  A point is a pair of coordinates, and pairs are compared lexicographically, as Python
  compares tuples.
\<close>

type_synonym 'a point = "'a \<times> 'a"

definition cross :: "'a number_ops \<Rightarrow> 'a point \<Rightarrow> 'a point \<Rightarrow> 'a point \<Rightarrow> 'a" where
  "cross ops og a b =
     py_sub ops
       (py_mul ops (py_sub ops (fst a) (fst og)) (py_sub ops (snd b) (snd og)))
       (py_mul ops (py_sub ops (snd a) (snd og)) (py_sub ops (fst b) (fst og)))"

text \<open>
  The inner loop \<^verbatim>\<open>while len(lower) >= 2 and cross(lower[-2], lower[-1], p) <= 0: lower.pop()\<close>.
  The chain is kept as the source keeps it, with the most recent point last.
\<close>

function pop_while ::
  "'a::{linorder,zero} number_ops \<Rightarrow> 'a point list \<Rightarrow> 'a point \<Rightarrow> py_error + 'a point list" where
  "pop_while ops chain p =
     (if 2 \<le> length chain then
        (case py_index chain (- 2) of
           Inl e \<Rightarrow> Inl e
         | Inr og \<Rightarrow>
            (case py_index chain (- 1) of
               Inl e \<Rightarrow> Inl e
             | Inr a \<Rightarrow>
                if cross ops og a p \<le> 0 then
                  (case py_pop chain of
                     Inl e \<Rightarrow> Inl e
                   | Inr chain' \<Rightarrow> pop_while ops chain' p)
                else Inr chain))
      else Inr chain)"
  by pat_completeness auto
termination
proof (relation "measure (\<lambda>(ops, chain, p). length chain)")
  show "wf (measure (\<lambda>(ops, chain, p). length chain))" by simp
next
  fix ops :: "'a number_ops" and chain chain' :: "'a point list" and p :: "'a point"
  assume "2 \<le> length chain" and "py_pop chain = Inr chain'"
  then show "((ops, chain', p), (ops, chain, p)) \<in> measure (\<lambda>(ops, chain, p). length chain)"
    by (cases chain) (auto simp: py_pop_def)
qed

text \<open>The outer loop \<^verbatim>\<open>for p in pts: ...; lower.append(p)\<close>, started on any chain.\<close>

fun build_chain ::
  "'a::{linorder,zero} number_ops \<Rightarrow> 'a point list \<Rightarrow> 'a point list \<Rightarrow> py_error + 'a point list" where
  "build_chain ops chain [] = Inr chain"
| "build_chain ops chain (p # ps) =
     (case pop_while ops chain p of
        Inl e \<Rightarrow> Inl e
      | Inr chain' \<Rightarrow> build_chain ops (chain' @ [p]) ps)"

text \<open>
  \<^verbatim>\<open>sorted(set(points_xy))\<close> is the sorted list of the distinct points; the slices
  \<^verbatim>\<open>lower[:-1]\<close> and \<^verbatim>\<open>upper[:-1]\<close> never raise and drop the last element.
\<close>

definition convex_hull_xy ::
  "'a::{linorder,zero} number_ops \<Rightarrow> 'a point list \<Rightarrow> py_error + 'a point list" where
  "convex_hull_xy ops points_xy =
     (let pts = sort (remdups points_xy) in
      if length pts < 3 then Inr []
      else
        (case build_chain ops [] pts of
           Inl e \<Rightarrow> Inl e
         | Inr lower \<Rightarrow>
            (case build_chain ops [] (rev pts) of
               Inl e \<Rightarrow> Inl e
             | Inr upper \<Rightarrow> Inr (butlast lower @ butlast upper))))"

section \<open>The loops as list functions\<close>

text \<open>
  For the proofs the chain is a stack with its most recent point first, and the loops
  are functions of the cross product \<open>cr\<close> alone. They compute what the loops of the
  source compute, and none of the list operations fails.
\<close>

declare pop_while.simps [simp del]

fun gprune ::
  "('a point \<Rightarrow> 'a point \<Rightarrow> 'a point \<Rightarrow> 'a::{linorder,zero}) \<Rightarrow> 'a point \<Rightarrow> 'a point list
    \<Rightarrow> 'a point list" where
  "gprune cr p (a # b # st) = (if cr b a p \<le> 0 then gprune cr p (b # st) else a # b # st)"
| "gprune cr p st = st"

fun gscan ::
  "('a point \<Rightarrow> 'a point \<Rightarrow> 'a point \<Rightarrow> 'a::{linorder,zero}) \<Rightarrow> 'a point list \<Rightarrow> 'a point list
    \<Rightarrow> 'a point list" where
  "gscan cr st [] = st"
| "gscan cr st (p # ps) = gscan cr (p # gprune cr p st) ps"

definition ghull ::
  "('a point \<Rightarrow> 'a point \<Rightarrow> 'a point \<Rightarrow> 'a::{linorder,zero}) \<Rightarrow> 'a point list \<Rightarrow> 'a point list" where
  "ghull cr xs =
     (let pts = sort (remdups xs) in
      if length pts < 3 then []
      else rev (tl (gscan cr [] pts)) @ rev (tl (gscan cr [] (rev pts))))"

lemma py_index_last: "py_index (ys @ [a]) (- 1) = Inr a"
  by (simp add: py_index_def)

lemma py_index_last2: "py_index (ys @ [b, a]) (- 2) = Inr b"
  by (simp add: py_index_def nth_append)

lemma py_pop_snoc: "py_pop (ys @ [a]) = Inr ys"
  by (cases ys) (simp_all add: py_pop_def)

lemma pop_while_gprune: "pop_while ops (rev st) p = Inr (rev (gprune (cross ops) p st))"
proof (induction "cross ops" p st rule: gprune.induct)
  case (1 p a b st)
  have idx2: "py_index (rev st @ [b, a]) (- 2) = Inr b" by (rule py_index_last2)
  have idx1: "py_index (rev st @ [b, a]) (- 1) = Inr a"
    using py_index_last [of "rev st @ [b]" a] by simp
  have pop: "py_pop (rev st @ [b, a]) = Inr (rev st @ [b])"
    using py_pop_snoc [of "rev st @ [b]" a] by simp
  show ?case
  proof (cases "cross ops b a p \<le> 0")
    case True
    with 1 have "pop_while ops (rev st @ [b]) p = Inr (rev (gprune (cross ops) p (b # st)))"
      by simp
    with True show ?thesis
      by (subst pop_while.simps) (simp add: idx1 idx2 pop)
  next
    case False
    then show ?thesis
      by (subst pop_while.simps) (simp add: idx1 idx2)
  qed
qed (subst pop_while.simps, simp)+

lemma build_chain_gscan: "build_chain ops (rev st) ps = Inr (rev (gscan (cross ops) st ps))"
proof (induction ps arbitrary: st)
  case Nil
  show ?case by simp
next
  case (Cons p ps)
  have "build_chain ops (rev (p # gprune (cross ops) p st)) ps
      = Inr (rev (gscan (cross ops) (p # gprune (cross ops) p st) ps))"
    by (rule Cons.IH)
  then show ?case by (simp add: pop_while_gprune)
qed

lemma build_chain_Nil: "build_chain ops [] ps = Inr (rev (gscan (cross ops) [] ps))"
  using build_chain_gscan [of ops "[]" ps] by simp

lemma convex_hull_xy_ghull: "convex_hull_xy ops xs = Inr (ghull (cross ops) xs)"
  by (simp add: convex_hull_xy_def ghull_def Let_def build_chain_Nil butlast_rev)

section \<open>The loops in exact arithmetic\<close>

text \<open>
  The cross product as a number, computed without rounding, and the loops that test it.
\<close>

definition orient :: "'a::linordered_idom point \<Rightarrow> 'a point \<Rightarrow> 'a point \<Rightarrow> 'a" where
  "orient og a b = (fst a - fst og) * (snd b - snd og) - (snd a - snd og) * (fst b - fst og)"

fun prune :: "'a::linordered_idom point \<Rightarrow> 'a point list \<Rightarrow> 'a point list" where
  "prune p (a # b # st) = (if orient b a p \<le> 0 then prune p (b # st) else a # b # st)"
| "prune p st = st"

fun scan :: "'a::linordered_idom point list \<Rightarrow> 'a point list \<Rightarrow> 'a point list" where
  "scan st [] = st"
| "scan st (p # ps) = scan (p # prune p st) ps"

definition hull :: "'a::linordered_idom point list \<Rightarrow> 'a point list" where
  "hull xs =
     (let pts = sort (remdups xs) in
      if length pts < 3 then []
      else rev (tl (scan [] pts)) @ rev (tl (scan [] (rev pts))))"

text \<open>
  The computed cross product decides every test of the loops as the exact one does: it
  is \<open>\<le> 0\<close> for three input points exactly when the exact cross product is.
\<close>

definition sign_exact :: "'a::linordered_idom number_ops \<Rightarrow> 'a point list \<Rightarrow> bool" where
  "sign_exact ops xs \<longleftrightarrow>
     (\<forall>og\<in>set xs. \<forall>a\<in>set xs. \<forall>b\<in>set xs. (cross ops og a b \<le> 0) = (orient og a b \<le> 0))"

lemma cross_exact: "cross exact og a b = orient og a b"
  by (simp add: cross_def exact_def orient_def)

lemma sign_exact_exact: "sign_exact exact xs"
  by (simp add: sign_exact_def cross_exact)

lemma sign_exact_subset: "sign_exact ops xs \<Longrightarrow> set ys \<subseteq> set xs \<Longrightarrow> sign_exact ops ys"
  by (auto simp: sign_exact_def)

lemma set_gprune: "set (gprune cr p st) \<subseteq> set st"
  by (induction cr p st rule: gprune.induct) auto

lemma gprune_agree:
  assumes "\<forall>og\<in>S. \<forall>a\<in>S. \<forall>b\<in>S. (cr og a b \<le> 0) = (orient og a b \<le> 0)"
  shows "insert p (set st) \<subseteq> S \<Longrightarrow> gprune cr p st = prune p st"
proof (induction p st rule: prune.induct)
  case (1 p a b st)
  from 1(2) assms have t: "(cr b a p \<le> 0) = (orient b a p \<le> 0)" by simp
  show ?case
  proof (cases "orient b a p \<le> 0")
    case True
    moreover from 1(2) have "insert p (set (b # st)) \<subseteq> S" by auto
    ultimately show ?thesis using 1(1) t by simp
  next
    case False
    with t show ?thesis by simp
  qed
qed simp_all

lemma gscan_agree:
  assumes "\<forall>og\<in>S. \<forall>a\<in>S. \<forall>b\<in>S. (cr og a b \<le> 0) = (orient og a b \<le> 0)"
  shows "set st \<union> set ps \<subseteq> S \<Longrightarrow> gscan cr st ps = scan st ps"
proof (induction ps arbitrary: st)
  case Nil
  show ?case by simp
next
  case (Cons p ps)
  from Cons.prems have "insert p (set st) \<subseteq> S" by auto
  from gprune_agree [OF assms this] have pr: "gprune cr p st = prune p st" .
  have "set (prune p st) \<subseteq> set st" using set_gprune [of cr p st] unfolding pr .
  with Cons.prems have "set (p # prune p st) \<union> set ps \<subseteq> S" by auto
  from Cons.IH [OF this] pr show ?case by simp
qed

lemma ghull_agree: "sign_exact ops xs \<Longrightarrow> ghull (cross ops) xs = hull xs"
proof -
  assume "sign_exact ops xs"
  then have a: "\<forall>og\<in>set xs. \<forall>a\<in>set xs. \<forall>b\<in>set xs.
      (cross ops og a b \<le> 0) = (orient og a b \<le> 0)"
    by (simp add: sign_exact_def)
  let ?pts = "sort (remdups xs)"
  have "gscan (cross ops) [] ?pts = scan [] ?pts"
    by (rule gscan_agree [OF a]) simp
  moreover have "gscan (cross ops) [] (rev ?pts) = scan [] (rev ?pts)"
    by (rule gscan_agree [OF a]) simp
  ultimately show ?thesis by (simp add: ghull_def hull_def Let_def)
qed

lemma convex_hull_xy_hull:
  "sign_exact ops xs \<Longrightarrow> convex_hull_xy ops xs = Inr (hull xs)"
  by (simp add: convex_hull_xy_ghull ghull_agree)

section \<open>Directions and their order\<close>

text \<open>
  The exact cross product of three points is the determinant of two difference vectors.
  On the vectors that point from a point to a lexicographically greater one, a
  non-negative determinant is a total preorder, the order of the directions by angle.
\<close>

definition det :: "'a::linordered_idom point \<Rightarrow> 'a point \<Rightarrow> 'a" where
  "det u v = fst u * snd v - snd u * fst v"

definition vec :: "'a::linordered_idom point \<Rightarrow> 'a point \<Rightarrow> 'a point" where
  "vec a b = (fst b - fst a, snd b - snd a)"

definition lexpos :: "'a::linordered_idom point \<Rightarrow> bool" where
  "lexpos v \<longleftrightarrow> 0 < fst v \<or> (fst v = 0 \<and> 0 < snd v)"

lemma orient_det: "orient og a b = det (vec og a) (vec og b)"
  by (simp add: orient_def det_def vec_def)

lemma less_lexpos: "a < b \<longleftrightarrow> lexpos (vec a b)"
  by (auto simp: less_prod_def' lexpos_def vec_def)

lemma det_self [simp]: "det u u = 0"
  by (simp add: det_def)

lemma det_swap: "det u v = - det v u"
  by (simp add: det_def)

lemma det_vec_split: "det u (vec a c) = det u (vec a b) + det u (vec b c)"
  by (simp add: det_def vec_def algebra_simps)

lemma det_vec_rev: "det u (vec b a) = - det u (vec a b)"
  by (simp add: det_def vec_def algebra_simps)

lemma det_vec_rev2: "det (vec b a) u = - det (vec a b) u"
  by (simp add: det_def vec_def algebra_simps)

text \<open>On lexicographically positive vectors, \<open>0 \<le> det u v\<close> is a total preorder.\<close>

lemma det_trans:
  assumes u: "lexpos u" and v: "lexpos v" and w: "lexpos w"
    and uv: "0 \<le> det u v" and vw: "0 \<le> det v w"
  shows "0 \<le> det u w"
proof (cases "fst v = 0")
  case True
  with v have v2: "0 < snd v" by (simp add: lexpos_def)
  from vw True have "0 \<le> - (snd v * fst w)" by (simp add: det_def)
  then have "snd v * fst w \<le> 0" by simp
  with v2 have "fst w \<le> 0" by (simp add: mult_le_0_iff)
  with w have w1: "fst w = 0" and w2: "0 < snd w" by (auto simp: lexpos_def)
  from u have "0 \<le> fst u" by (auto simp: lexpos_def)
  with w1 w2 show ?thesis by (simp add: det_def)
next
  case False
  with v have v1: "0 < fst v" by (auto simp: lexpos_def)
  from u have u1: "0 \<le> fst u" by (auto simp: lexpos_def)
  from w have w1: "0 \<le> fst w" by (auto simp: lexpos_def)
  have "fst v * det u w = fst u * det v w + fst w * det u v"
    by (simp add: det_def algebra_simps)
  moreover have "0 \<le> fst u * det v w + fst w * det u v"
    using u1 w1 uv vw by simp
  ultimately have "0 \<le> fst v * det u w" by simp
  with v1 show ?thesis by (simp add: zero_le_mult_iff)
qed

lemma det_trans_less1:
  assumes "lexpos u" "lexpos v" "lexpos w" "0 \<le> det u v" "0 < det v w"
  shows "0 < det u w"
proof (rule ccontr)
  assume "\<not> 0 < det u w"
  then have "0 \<le> det w u" by (simp add: det_swap [of w u])
  from det_trans [OF assms(3) assms(1) assms(2) this assms(4)]
  have "0 \<le> det w v" .
  with assms(5) show False by (simp add: det_swap [of w v])
qed

lemma det_trans_less2:
  assumes "lexpos u" "lexpos v" "lexpos w" "0 < det u v" "0 \<le> det v w"
  shows "0 < det u w"
proof (rule ccontr)
  assume "\<not> 0 < det u w"
  then have "0 \<le> det w u" by (simp add: det_swap [of w u])
  from det_trans [OF assms(2) assms(3) assms(1) assms(5) this]
  have "0 \<le> det v u" .
  with assms(4) show False by (simp add: det_swap [of v u])
qed

subsection \<open>The facts about points that the scan needs\<close>

lemma orient_mid: "orient a b c = det (vec a b) (vec b c)"
  by (simp add: orient_det det_vec_split [of _ a c b])

lemma orient_same [simp]: "orient a b a = 0" "orient a a b = 0" "orient a b b = 0"
  by (simp_all add: orient_def)

lemma geo_pop:
  assumes "b < a" "b < p" "b \<le> q" "orient b a p \<le> 0" "0 \<le> orient b a q"
  shows "0 \<le> orient b p q"
proof (cases "q = b")
  case True
  then show ?thesis by simp
next
  case False
  with assms(3) have "b < q" by simp
  then have w: "lexpos (vec b q)" by (simp add: less_lexpos)
  have u: "lexpos (vec b a)" and v: "lexpos (vec b p)"
    using assms(1,2) by (simp_all add: less_lexpos)
  have vu: "0 \<le> det (vec b p) (vec b a)"
    using assms(4) by (simp add: orient_det det_swap [of "vec b p"])
  have uw: "0 \<le> det (vec b a) (vec b q)"
    using assms(5) by (simp add: orient_det)
  from det_trans [OF v u w vu uw] show ?thesis by (simp add: orient_det)
qed

lemma geo_left:
  assumes "b < c" "c < p" "q < c" "0 < orient b c p" "0 \<le> orient b c q"
  shows "0 < orient c p q"
proof -
  have u: "lexpos (vec b c)" and v: "lexpos (vec c p)" and w: "lexpos (vec q c)"
    using assms(1-3) by (simp_all add: less_lexpos)
  have uv: "0 < det (vec b c) (vec c p)"
    using assms(4) by (simp add: orient_mid)
  have wu: "0 \<le> det (vec q c) (vec b c)"
    using assms(5) by (simp add: orient_mid det_vec_rev [of _ c q] det_swap [of "vec q c"])
  from det_trans_less1 [OF w u v wu uv]
  show ?thesis by (simp add: orient_det det_vec_rev [of _ c q] det_swap [of "vec q c"])
qed

lemma geo_deep:
  assumes "c < b" "b < a" "a < p" "0 < orient c b a" "0 < orient b a p"
  shows "0 < orient c b p"
proof -
  have u: "lexpos (vec c b)" and v: "lexpos (vec b a)" and w: "lexpos (vec a p)"
    using assms(1-3) by (simp_all add: less_lexpos)
  have uv: "0 < det (vec c b) (vec b a)" using assms(4) by (simp add: orient_mid)
  have vw: "0 < det (vec b a) (vec a p)" using assms(5) by (simp add: orient_mid)
  from vw have vw': "0 \<le> det (vec b a) (vec a p)" by simp
  from det_trans_less2 [OF u v w uv vw'] have uw: "0 < det (vec c b) (vec a p)" .
  have "orient c b p = det (vec c b) (vec b a) + det (vec c b) (vec a p)"
    by (simp add: orient_mid det_vec_split [of _ b p a])
  with uv uw show ?thesis by simp
qed

section \<open>The invariant of a scan\<close>

text \<open>
  Read from its top, the stack of a scan over increasing points is decreasing, turns
  strictly left at every vertex, and has every point scanned so far on the left of, or
  on, each of its edges.
\<close>

fun sturns :: "'a::linordered_idom point list \<Rightarrow> bool" where
  "sturns (a # b # c # st) \<longleftrightarrow> 0 < orient c b a \<and> sturns (b # c # st)"
| "sturns st \<longleftrightarrow> True"

fun ssupp :: "'a::linordered_idom point list \<Rightarrow> 'a point set \<Rightarrow> bool" where
  "ssupp (a # b # st) Q \<longleftrightarrow> (\<forall>q\<in>Q. 0 \<le> orient b a q) \<and> ssupp (b # st) Q"
| "ssupp st Q \<longleftrightarrow> True"

lemma sturns_tl: "sturns (a # st) \<Longrightarrow> sturns st"
  by (induction st rule: sturns.induct) auto

lemma ssupp_tl: "ssupp (a # st) Q \<Longrightarrow> ssupp st Q"
  by (cases st) auto

lemma sturns_suffix: "sturns (ys @ zs) \<Longrightarrow> sturns zs"
  by (induction ys) (auto dest: sturns_tl)

lemma ssupp_suffix: "ssupp (ys @ zs) Q \<Longrightarrow> ssupp zs Q"
  by (induction ys) (auto dest: ssupp_tl)

lemma prune_suffix: "suffix (prune p st) st"
  by (induction p st rule: prune.induct) (auto simp: suffix_Cons)

lemma prune_top: "prune p st = a # b # r \<Longrightarrow> 0 < orient b a p"
  by (induction p st rule: prune.induct) (auto split: if_splits)

lemma prune_nonempty: "st \<noteq> [] \<Longrightarrow> prune p st \<noteq> []"
  by (induction p st rule: prune.induct) auto

lemma prune_last: "last (prune p st) = last st"
  by (induction p st rule: prune.induct) auto

lemma prune_decomp: "\<exists>zs. zs @ prune p st = st"
  using prune_suffix [of p st] unfolding suffix_def by metis

lemma set_prune: "set (prune p st) \<subseteq> set st"
  using prune_suffix [of p st] by (rule set_mono_suffix)

lemma sturns_prune: "sturns st \<Longrightarrow> sturns (prune p st)"
  using prune_decomp [of p st] sturns_suffix by metis

lemma ssupp_prune: "ssupp st Q \<Longrightarrow> ssupp (prune p st) Q"
  using prune_decomp [of p st] ssupp_suffix by metis

lemma sorted_prune: "sorted_wrt (>) st \<Longrightarrow> sorted_wrt (>) (prune p st)"
  using prune_decomp [of p st] sorted_wrt_append [of "(>)" _ "prune p st"] by metis

lemma sturns_push: "sturns st \<Longrightarrow> sturns (p # prune p st)"
proof -
  assume "sturns st"
  then have t: "sturns (prune p st)" by (rule sturns_prune)
  show ?thesis
  proof (cases "prune p st")
    case Nil
    then show ?thesis by simp
  next
    case (Cons a r)
    show ?thesis
    proof (cases r)
      case Nil
      with Cons show ?thesis by simp
    next
      case (Cons b r')
      with \<open>prune p st = a # r\<close> have eq: "prune p st = a # b # r'" by simp
      from prune_top [OF eq] t eq show ?thesis by simp
    qed
  qed
qed

text \<open>Every edge of a convex, decreasing stack has a later point on its left.\<close>

lemma ssupp_new_point:
  "sturns (a # b # st) \<Longrightarrow> sorted_wrt (>) (a # b # st) \<Longrightarrow> a < p \<Longrightarrow> 0 < orient b a p
    \<Longrightarrow> ssupp (a # b # st) {p}"
proof (induction st arbitrary: a b)
  case Nil
  then show ?case by simp
next
  case (Cons c st)
  from Cons.prems have cba: "0 < orient c b a" and cb: "c < b" and ba: "b < a" by auto
  from geo_deep [OF cb ba Cons.prems(3) cba Cons.prems(4)] have "0 < orient c b p" .
  moreover from Cons.prems have "sturns (b # c # st)" "sorted_wrt (>) (b # c # st)" "b < p"
    by auto
  ultimately have "ssupp (b # c # st) {p}" by (rule Cons.IH [rotated 3])
  with Cons.prems(4) show ?case by simp
qed

lemma ssupp_Un: "ssupp st (P \<union> Q) \<longleftrightarrow> ssupp st P \<and> ssupp st Q"
  by (induction st P rule: ssupp.induct) auto

lemma ssupp_insert: "ssupp st (insert p Q) \<longleftrightarrow> ssupp st {p} \<and> ssupp st Q"
  using ssupp_Un [of st "{p}" Q] by simp

text \<open>Points at or after the top of the pruned stack lie on the left of the new edge.\<close>

lemma prune_right:
  assumes "ssupp st Q" "sorted_wrt (>) st" "st \<noteq> []" "hd st < p"
    and "\<forall>q\<in>Q. hd st \<le> q \<longrightarrow> 0 \<le> orient (hd st) p q"
  shows "\<forall>q\<in>Q. hd (prune p st) \<le> q \<longrightarrow> 0 \<le> orient (hd (prune p st)) p q"
  using assms
proof (induction p st rule: prune.induct)
  case (1 p a b st)
  show ?case
  proof (cases "orient b a p \<le> 0")
    case True
    from 1(3) have ba: "b < a" by simp
    with 1(5) have bp: "b < p" by simp
    have "\<forall>q\<in>Q. hd (b # st) \<le> q \<longrightarrow> 0 \<le> orient (hd (b # st)) p q"
    proof (intro ballI impI)
      fix q assume q: "q \<in> Q" "hd (b # st) \<le> q"
      with 1(2) have "0 \<le> orient b a q" by simp
      from geo_pop [OF ba bp _ True this] q show "0 \<le> orient (hd (b # st)) p q" by simp
    qed
    moreover from 1(2) have "ssupp (b # st) Q" by simp
    moreover from 1(3) have "sorted_wrt (>) (b # st)" by simp
    ultimately have "\<forall>q\<in>Q. hd (prune p (b # st)) \<le> q \<longrightarrow> 0 \<le> orient (hd (prune p (b # st))) p q"
      using bp by (intro 1(1) [OF True]) simp_all
    with True show ?thesis by simp
  next
    case False
    with 1(6) show ?thesis by simp
  qed
qed simp_all

definition inv :: "'a::linordered_idom point set \<Rightarrow> 'a point list \<Rightarrow> bool" where
  "inv Q st \<longleftrightarrow> st \<noteq> [] \<and> sorted_wrt (>) st \<and> sturns st \<and> ssupp st Q \<and> set st \<subseteq> Q
     \<and> (\<forall>q\<in>Q. last st \<le> q \<and> q \<le> hd st)"

lemma inv_push:
  assumes i: "inv Q st" and p: "\<forall>q\<in>Q. q < p"
  shows "inv (insert p Q) (p # prune p st)"
proof -
  let ?r = "prune p st"
  from i have ne: "st \<noteq> []" and so: "sorted_wrt (>) st" and tu: "sturns st"
    and su: "ssupp st Q" and sub: "set st \<subseteq> Q" and bd: "\<forall>q\<in>Q. last st \<le> q \<and> q \<le> hd st"
    by (simp_all add: inv_def)
  from ne have rne: "?r \<noteq> []" by (rule prune_nonempty)
  have rsub: "set ?r \<subseteq> Q" using set_prune [of p st] sub by blast
  have rso: "sorted_wrt (>) ?r" using so by (rule sorted_prune)
  have rsu: "ssupp ?r Q" using su by (rule ssupp_prune)
  have rtu: "sturns ?r" using tu by (rule sturns_prune)
  have hdr: "hd ?r \<in> Q" using rne rsub by (cases ?r) auto
  then have hp: "hd ?r < p" using p by simp
  have hdst: "hd st < p" using ne sub p by (cases st) auto
  have sorted': "sorted_wrt (>) (p # ?r)" using rso rsub p by auto
  have turns': "sturns (p # ?r)" using tu by (rule sturns_push)
  have "last st \<in> Q" using ne sub by auto
  then have "last st \<le> p" using p by (auto simp: less_imp_le)
  then have bounds': "\<forall>q\<in>insert p Q. last (p # ?r) \<le> q \<and> q \<le> hd (p # ?r)"
    using rne bd p prune_last [of p st] by (auto simp: less_imp_le)
  \<comment> \<open>the new edge has every old point on its left\<close>
  have right: "\<forall>q\<in>Q. hd ?r \<le> q \<longrightarrow> 0 \<le> orient (hd ?r) p q"
  proof (rule prune_right [OF su so ne hdst])
    show "\<forall>q\<in>Q. hd st \<le> q \<longrightarrow> 0 \<le> orient (hd st) p q"
    proof (intro ballI impI)
      fix q assume "q \<in> Q" "hd st \<le> q"
      with bd have "q = hd st" by auto
      then show "0 \<le> orient (hd st) p q" by simp
    qed
  qed
  have new_edge: "\<forall>q\<in>Q. 0 \<le> orient (hd ?r) p q"
  proof
    fix q assume q: "q \<in> Q"
    show "0 \<le> orient (hd ?r) p q"
    proof (cases "hd ?r \<le> q")
      case True
      with right q show ?thesis by simp
    next
      case False
      then have qc: "q < hd ?r" by simp
      from q bd prune_last [of p st] have lq: "last ?r \<le> q" by simp
      obtain c r where r: "?r = c # r" using rne by (cases ?r) auto
      with qc lq have "r \<noteq> []" by auto
      then obtain b r' where r': "?r = c # b # r'" using r by (cases r) auto
      from prune_top [OF r'] have cbp: "0 < orient b c p" .
      from rsu r' q have cbq: "0 \<le> orient b c q" by simp
      from rso r' have bc: "b < c" by simp
      from geo_left [OF bc _ _ cbp cbq] hp qc r' show ?thesis by simp
    qed
  qed
  have old_edges: "ssupp ?r {p}"
  proof (cases ?r)
    case Nil
    then show ?thesis by simp
  next
    case (Cons c r)
    show ?thesis
    proof (cases r)
      case Nil
      with Cons show ?thesis by simp
    next
      case (Cons b r')
      with \<open>?r = c # r\<close> have r': "?r = c # b # r'" by simp
      from prune_top [OF r'] have "0 < orient b c p" .
      moreover from rtu r' have "sturns (c # b # r')" by simp
      moreover from rso r' have "sorted_wrt (>) (c # b # r')" by simp
      moreover from hp r' have "c < p" by simp
      ultimately have "ssupp (c # b # r') {p}" by (intro ssupp_new_point)
      with r' show ?thesis by simp
    qed
  qed
  have supp': "ssupp (p # ?r) (insert p Q)"
  proof (cases ?r)
    case Nil
    with rne show ?thesis by simp
  next
    case (Cons c r)
    with new_edge have e: "\<forall>q\<in>insert p Q. 0 \<le> orient c p q" by simp
    have "ssupp ?r (insert p Q)" using old_edges rsu by (subst ssupp_insert) simp
    then have "ssupp (c # r) (insert p Q)" unfolding Cons .
    with e have "ssupp (p # c # r) (insert p Q)" by (simp only: ssupp.simps) 
    then show ?thesis unfolding Cons .
  qed
  show ?thesis
    unfolding inv_def using sorted' turns' supp' bounds' rsub by auto
qed

lemma inv_scan:
  "inv Q st \<Longrightarrow> sorted_wrt (<) ps \<Longrightarrow> \<forall>q\<in>Q. \<forall>p\<in>set ps. q < p
    \<Longrightarrow> inv (Q \<union> set ps) (scan st ps)"
proof (induction ps arbitrary: Q st)
  case Nil
  then show ?case by simp
next
  case (Cons p ps)
  from Cons.prems have "inv (insert p Q) (p # prune p st)" by (intro inv_push) auto
  moreover from Cons.prems have "sorted_wrt (<) ps" by simp
  moreover from Cons.prems have "\<forall>q\<in>insert p Q. \<forall>p'\<in>set ps. q < p'" by auto
  ultimately have "inv (insert p Q \<union> set ps) (scan (p # prune p st) ps)" by (rule Cons.IH)
  then show ?case by simp
qed

lemma inv_single: "inv {p} [p]"
  by (simp add: inv_def)

lemma inv_scan_Nil:
  assumes "sorted_wrt (<) ps" "ps \<noteq> []"
  shows "inv (set ps) (scan [] ps)"
proof -
  obtain p ps' where ps: "ps = p # ps'" using assms(2) by (cases ps) auto
  with assms(1) have "inv ({p} \<union> set ps') (scan [p] ps')"
    by (intro inv_scan inv_single) auto
  with ps show ?thesis by simp
qed

section \<open>The sorted points and the ends of a scan\<close>

lemma set_scan: "set (scan st ps) \<subseteq> set st \<union> set ps"
proof (induction ps arbitrary: st)
  case Nil
  show ?case by simp
next
  case (Cons p ps)
  have "set (scan (p # prune p st) ps) \<subseteq> set (p # prune p st) \<union> set ps" by (rule Cons.IH)
  with set_prune [of p st] show ?case by auto
qed

lemma set_hull: "set (hull xs) \<subseteq> set xs"
proof -
  have "set (tl (scan [] ps)) \<subseteq> set ps" for ps :: "'a point list"
    using set_scan [of "[]" ps] list.set_sel(2) [of "scan [] ps"]
    by (cases "scan [] ps") auto
  from this [of "sort (remdups xs)"] this [of "rev (sort (remdups xs))"]
  show ?thesis by (auto simp: hull_def Let_def)
qed

lemma pts_set_cong: "set xs = set ys \<Longrightarrow> sort (remdups xs) = sort (remdups ys)"
  by (metis sorted_list_of_set_sort_remdups)

lemma pts_sorted: "sorted_wrt (<) (sort (remdups xs))"
  by (simp add: strict_sorted_iff)

lemma length_pts: "length (sort (remdups xs)) = card (set xs)"
  by (simp add: length_remdups_card_conv)

lemma hull_set_cong: "set xs = set ys \<Longrightarrow> hull xs = hull ys"
  by (simp add: hull_def pts_set_cong [of xs ys])

lemma sorted_hd_least: "sorted ps \<Longrightarrow> q \<in> set ps \<Longrightarrow> hd ps \<le> q"
  by (cases ps) auto

lemma sorted_last_greatest: "sorted ps \<Longrightarrow> q \<in> set ps \<Longrightarrow> q \<le> last ps"
proof -
  assume so: "sorted ps" and q: "q \<in> set ps"
  then have "ps \<noteq> []" by auto
  then have eq: "butlast ps @ [last ps] = ps" by simp
  from so have "sorted (butlast ps @ [last ps])" unfolding eq .
  then have "\<forall>y\<in>set (butlast ps). y \<le> last ps" by (simp add: sorted_append)
  moreover from q have "q \<in> set (butlast ps @ [last ps])" unfolding eq .
  ultimately show ?thesis by auto
qed

lemma hd_pts: "xs \<noteq> [] \<Longrightarrow> hd (sort (remdups xs)) = Min (set xs)"
proof -
  let ?pts = "sort (remdups xs)"
  assume "xs \<noteq> []"
  have s: "set ?pts = set xs" by simp
  from \<open>xs \<noteq> []\<close> have "set ?pts \<noteq> {}" unfolding s by simp
  then have ne: "?pts \<noteq> []" by (simp only: set_empty not_False_eq_True)
  have "Min (set xs) = hd ?pts"
  proof (rule Min_eqI)
    show "finite (set xs)" by simp
    show "hd ?pts \<in> set xs" using ne s by (metis list.set_sel(1))
    fix y assume "y \<in> set xs"
    then have "y \<in> set ?pts" by simp
    then show "hd ?pts \<le> y" by (intro sorted_hd_least) simp_all
  qed
  then show ?thesis by simp
qed

text \<open>The two ends of a finished scan.\<close>

lemma scan_ends:
  assumes "sorted_wrt (<) ps" "ps \<noteq> []"
  shows "last (scan [] ps) = hd ps" and "hd (scan [] ps) = last ps" and "scan [] ps \<noteq> []"
proof -
  from inv_scan_Nil [OF assms] have i: "inv (set ps) (scan [] ps)" .
  then show ne: "scan [] ps \<noteq> []" by (simp add: inv_def)
  from i have bd: "\<forall>q\<in>set ps. last (scan [] ps) \<le> q \<and> q \<le> hd (scan [] ps)"
    and sub: "set (scan [] ps) \<subseteq> set ps" by (simp_all add: inv_def)
  from assms have so: "sorted ps" by (simp add: strict_sorted_iff)
  have lo: "\<forall>q\<in>set ps. hd ps \<le> q" using so by (auto intro: sorted_hd_least)
  have hi: "\<forall>q\<in>set ps. q \<le> last ps" using so by (auto intro: sorted_last_greatest)
  from ne sub have "last (scan [] ps) \<in> set ps" "hd (scan [] ps) \<in> set ps" by auto
  with bd lo hi assms(2) show "last (scan [] ps) = hd ps" "hd (scan [] ps) = last ps"
    by (auto intro!: antisym)
qed

lemma hd_less_last: "sorted_wrt (<) ps \<Longrightarrow> 2 \<le> length ps \<Longrightarrow> hd ps < last ps"
proof -
  assume so: "sorted_wrt (<) ps" and len: "2 \<le> length ps"
  then obtain x y ys where ps: "ps = x # y # ys" by (cases ps; cases "tl ps") auto
  then have "last ps \<in> set (y # ys)" by (metis last_ConsR last_in_set list.distinct(1))
  with so ps show ?thesis by auto
qed

lemma tl_scan_nonempty:
  assumes "sorted_wrt (<) ps" "2 \<le> length ps"
  shows "tl (scan [] ps) \<noteq> []"
proof
  assume e: "tl (scan [] ps) = []"
  from assms(2) have ne: "ps \<noteq> []" by auto
  from scan_ends [OF assms(1) ne] e have "hd ps = last ps"
    by (cases "scan [] ps") auto
  with hd_less_last [OF assms] show False by simp
qed

lemma last_tl: "tl xs \<noteq> [] \<Longrightarrow> last (tl xs) = last xs"
  by (cases xs) auto

lemma hull_empty_small: "card (set xs) < 3 \<Longrightarrow> hull xs = []"
  by (simp add: hull_def length_pts [simplified])

lemma hd_hull:
  assumes "hull xs \<noteq> []"
  shows "hd (hull xs) = Min (set xs)"
proof -
  let ?pts = "sort (remdups xs)"
  from assms have len: "3 \<le> length ?pts" by (auto simp: hull_def Let_def split: if_splits)
  then have xne: "xs \<noteq> []" by auto
  have ne: "?pts \<noteq> []"
  proof
    assume "?pts = []"
    then have "length ?pts = 0" by (metis list.size(3))
    with len show False by simp
  qed
  have so: "sorted_wrt (<) ?pts" by (rule pts_sorted)
  from len have "2 \<le> length ?pts" by simp
  from tl_scan_nonempty [OF so this] have t: "tl (scan [] ?pts) \<noteq> []" .
  from len have "hull xs = rev (tl (scan [] ?pts)) @ rev (tl (scan [] (rev ?pts)))"
    by (simp add: hull_def Let_def)
  with t have "hd (hull xs) = last (tl (scan [] ?pts))" by (simp add: hd_rev)
  also have "\<dots> = last (scan [] ?pts)" using t by (rule last_tl)
  also have "\<dots> = hd ?pts" using scan_ends(1) [OF so ne] .
  also have "\<dots> = Min (set xs)" using xne by (rule hd_pts)
  finally show ?thesis .
qed

section \<open>What holds whatever the cross product returns\<close>

lemma gprune_nonempty: "st \<noteq> [] \<Longrightarrow> gprune cr p st \<noteq> []"
  by (induction cr p st rule: gprune.induct) auto

lemma gprune_last: "last (gprune cr p st) = last st"
  by (induction cr p st rule: gprune.induct) auto

lemma set_gscan: "set (gscan cr st ps) \<subseteq> set st \<union> set ps"
proof (induction ps arbitrary: st)
  case Nil
  show ?case by simp
next
  case (Cons p ps)
  have "set (gscan cr (p # gprune cr p st) ps) \<subseteq> set (p # gprune cr p st) \<union> set ps"
    by (rule Cons.IH)
  with set_gprune [of cr p st] show ?case by auto
qed

lemma gscan_nonempty: "st \<noteq> [] \<Longrightarrow> gscan cr st ps \<noteq> []"
  by (induction ps arbitrary: st) simp_all

lemma last_gscan: "st \<noteq> [] \<Longrightarrow> last (gscan cr st ps) = last st"
proof (induction ps arbitrary: st)
  case Nil
  show ?case by simp
next
  case (Cons p ps)
  from Cons.prems have "gprune cr p st \<noteq> []" by (rule gprune_nonempty)
  with Cons.IH [of "p # gprune cr p st"] show ?case by (simp add: gprune_last)
qed

lemma hd_gscan: "ps \<noteq> [] \<Longrightarrow> hd (gscan cr st ps) = last ps"
proof (induction ps arbitrary: st)
  case Nil
  then show ?case by simp
next
  case (Cons p ps)
  show ?case
  proof (cases "ps = []")
    case True
    then show ?thesis by simp
  next
    case False
    with Cons.IH [of "p # gprune cr p st"] show ?thesis by simp
  qed
qed

lemma gscan_ends:
  assumes "ps \<noteq> []"
  shows "last (gscan cr [] ps) = hd ps" and "hd (gscan cr [] ps) = last ps"
    and "gscan cr [] ps \<noteq> []"
proof -
  from assms obtain p ps' where ps: "ps = p # ps'" by (cases ps) auto
  then have eq: "gscan cr [] ps = gscan cr [p] ps'" by simp
  show "last (gscan cr [] ps) = hd ps" unfolding eq using last_gscan [of "[p]" cr ps'] ps by simp
  show "hd (gscan cr [] ps) = last ps" using assms by (rule hd_gscan)
  show "gscan cr [] ps \<noteq> []" unfolding eq by (rule gscan_nonempty) simp
qed

lemma tl_gscan_nonempty:
  assumes "sorted_wrt (<) ps" "2 \<le> length ps"
  shows "tl (gscan cr [] ps) \<noteq> []"
proof
  assume e: "tl (gscan cr [] ps) = []"
  from assms(2) have ne: "ps \<noteq> []" by auto
  from gscan_ends [OF ne, of cr] e have "hd ps = last ps"
    by (cases "gscan cr [] ps") auto
  with hd_less_last [OF assms] show False by simp
qed

lemma set_ghull: "set (ghull cr xs) \<subseteq> set xs"
proof -
  have "set (tl (gscan cr [] ps)) \<subseteq> set ps" for ps :: "'a point list"
    using set_gscan [of cr "[]" ps] list.set_sel(2) [of "gscan cr [] ps"]
    by (cases "gscan cr [] ps") auto
  from this [of "sort (remdups xs)"] this [of "rev (sort (remdups xs))"]
  show ?thesis by (auto simp: ghull_def Let_def)
qed

lemma ghull_set_cong: "set xs = set ys \<Longrightarrow> ghull cr xs = ghull cr ys"
  by (simp add: ghull_def pts_set_cong [of xs ys])

lemma ghull_empty_small: "card (set xs) < 3 \<Longrightarrow> ghull cr xs = []"
  by (simp add: ghull_def length_pts [simplified])

lemma hd_ghull:
  assumes "ghull cr xs \<noteq> []"
  shows "hd (ghull cr xs) = Min (set xs)"
proof -
  let ?pts = "sort (remdups xs)"
  from assms have len: "3 \<le> length ?pts" by (auto simp: ghull_def Let_def split: if_splits)
  then have xne: "xs \<noteq> []" by auto
  have ne: "?pts \<noteq> []"
  proof
    assume "?pts = []"
    then have "length ?pts = 0" by (metis list.size(3))
    with len show False by simp
  qed
  have so: "sorted_wrt (<) ?pts" by (rule pts_sorted)
  from len have "2 \<le> length ?pts" by simp
  from tl_gscan_nonempty [OF so this] have t: "tl (gscan cr [] ?pts) \<noteq> []" .
  from len have "ghull cr xs = rev (tl (gscan cr [] ?pts)) @ rev (tl (gscan cr [] (rev ?pts)))"
    by (simp add: ghull_def Let_def)
  with t have "hd (ghull cr xs) = last (tl (gscan cr [] ?pts))" by (simp add: hd_rev)
  also have "\<dots> = last (gscan cr [] ?pts)" using t by (rule last_tl)
  also have "\<dots> = hd ?pts" using gscan_ends(1) [OF ne] .
  also have "\<dots> = Min (set xs)" using xne by (rule hd_pts)
  finally show ?thesis .
qed

section \<open>The claims that do not depend on the arithmetic\<close>

text \<open>
  The theorems of this section hold for every pair of operators \<open>ops\<close>, hence in exact
  arithmetic and in the arithmetic of doubles alike. Their witnesses run the function on
  doubles.
\<close>

lemma ex_square:
  "convex_hull_xy binary64 [(0, 0), (4, 0), (4, 4), (0, 4), (2, 2)]
    = Inr [(0, 0), (4, 0), (4, 4), (0, 4)]"
  by code_simp

text \<open>
  Claim C1. An input whose set of distinct points has fewer than three elements (the empty
  list, one point, two points, any number of copies of at most two points) gives the
  empty hull.
\<close>

theorem hull_empty_below_three_distinct:
  "card (set points_xy) < 3 \<Longrightarrow> convex_hull_xy ops points_xy = Inr []"
  by (simp add: convex_hull_xy_ghull ghull_empty_small)

theorem hull_empty_below_three_distinct_witness:
  "card (set ([(0, 0), (1, 1), (0, 0), (1, 1)] :: int point list)) < 3
   \<and> convex_hull_xy binary64 [(0, 0), (1, 1), (0, 0), (1, 1)] = Inr []"
proof -
  have h: "card (set ([(0, 0), (1, 1), (0, 0), (1, 1)] :: int point list)) < 3" by code_simp
  from h hull_empty_below_three_distinct [OF h] show ?thesis by (rule conjI)
qed

text \<open>
  Claim C4. Every vertex of the returned hull is one of the input points: no coordinate
  pair is made up.
\<close>

theorem hull_vertices_from_input:
  "convex_hull_xy ops points_xy = Inr h \<Longrightarrow> set h \<subseteq> set points_xy"
proof -
  assume "convex_hull_xy ops points_xy = Inr h"
  then have "h = ghull (cross ops) points_xy" by (simp add: convex_hull_xy_ghull)
  then show ?thesis using set_ghull [of "cross ops" points_xy] by simp
qed

theorem hull_vertices_from_input_witness:
  "convex_hull_xy binary64 [(0, 0), (4, 0), (4, 4), (0, 4), (2, 2)]
     = Inr [(0, 0), (4, 0), (4, 4), (0, 4)]
   \<and> set ([(0, 0), (4, 0), (4, 4), (0, 4)] :: int point list)
     \<subseteq> set [(0, 0), (4, 0), (4, 4), (0, 4), (2, 2)]"
  using ex_square hull_vertices_from_input [OF ex_square] by (rule conjI)

text \<open>
  Claim C6. Permuting the input list does not change the hull: the two results are the
  same sequence, hence the same cyclic sequence and the same vertex set.
\<close>

theorem hull_permutation_invariant:
  "mset ys = mset xs \<Longrightarrow> convex_hull_xy ops ys = convex_hull_xy ops xs"
proof -
  assume "mset ys = mset xs"
  then have "set ys = set xs" by (rule mset_eq_setD)
  then have "ghull (cross ops) ys = ghull (cross ops) xs" by (rule ghull_set_cong)
  then show ?thesis by (simp add: convex_hull_xy_ghull)
qed

theorem hull_permutation_invariant_witness:
  "mset ([(2, 2), (0, 4), (4, 0), (0, 0), (4, 4)] :: int point list)
     = mset [(0, 0), (4, 0), (4, 4), (0, 4), (2, 2)]
   \<and> convex_hull_xy binary64 [(2, 2), (0, 4), (4, 0), (0, 0), (4, 4)]
     = convex_hull_xy binary64 [(0, 0), (4, 0), (4, 4), (0, 4), (2, 2)]"
proof -
  have h: "mset ([(2, 2), (0, 4), (4, 0), (0, 0), (4, 4)] :: int point list)
      = mset [(0, 0), (4, 0), (4, 4), (0, 4), (2, 2)]" by simp
  from h hull_permutation_invariant [OF h] show ?thesis by (rule conjI)
qed

text \<open>
  Claim C8. The hull function is total: on every list of points, degenerate or not, it
  returns a list of vertices and takes none of the \<open>IndexError\<close> branches of the list
  primitives, whatever the cross products evaluate to; its loops terminate, as the
  termination proof of \<open>pop_while\<close> shows.
\<close>

theorem hull_never_raises: "\<exists>h. convex_hull_xy ops points_xy = Inr h"
  by (simp add: convex_hull_xy_ghull)

text \<open>
  Claim C9. A non-empty hull starts at the lexicographically least input point, and the
  whole output sequence is a function of the set of input points.
\<close>

theorem hull_starts_at_least_point:
  "(convex_hull_xy ops xs = Inr h \<and> h \<noteq> [] \<longrightarrow> hd h = Min (set xs))
   \<and> (set ys = set xs \<longrightarrow> convex_hull_xy ops ys = convex_hull_xy ops xs)"
proof (intro conjI impI)
  assume "convex_hull_xy ops xs = Inr h \<and> h \<noteq> []"
  then have "h = ghull (cross ops) xs" and "h \<noteq> []" by (simp_all add: convex_hull_xy_ghull)
  then show "hd h = Min (set xs)" using hd_ghull [of "cross ops" xs] by simp
next
  assume "set ys = set xs"
  then have "ghull (cross ops) ys = ghull (cross ops) xs" by (rule ghull_set_cong)
  then show "convex_hull_xy ops ys = convex_hull_xy ops xs" by (simp add: convex_hull_xy_ghull)
qed

theorem hull_starts_at_least_point_witness:
  "convex_hull_xy binary64 [(4, 4), (0, 4), (2, 2), (4, 0), (0, 0)]
     = Inr [(0, 0), (4, 0), (4, 4), (0, 4)]
   \<and> ([(0, 0), (4, 0), (4, 4), (0, 4)] :: int point list) \<noteq> []
   \<and> hd ([(0, 0), (4, 0), (4, 4), (0, 4)] :: int point list)
     = Min (set [(4, 4), (0, 4), (2, 2), (4, 0), (0, 0)])
   \<and> set ([(0, 0), (0, 0), (4, 0), (4, 4), (0, 4), (2, 2)] :: int point list)
     = set [(4, 4), (0, 4), (2, 2), (4, 0), (0, 0)]
   \<and> convex_hull_xy binary64 [(0, 0), (0, 0), (4, 0), (4, 4), (0, 4), (2, 2)]
     = convex_hull_xy binary64 [(4, 4), (0, 4), (2, 2), (4, 0), (0, 0)]"
proof -
  let ?xs = "[(4, 4), (0, 4), (2, 2), (4, 0), (0, 0)] :: int point list"
  let ?ys = "[(0, 0), (0, 0), (4, 0), (4, 4), (0, 4), (2, 2)] :: int point list"
  let ?h = "[(0, 0), (4, 0), (4, 4), (0, 4)] :: int point list"
  have e: "convex_hull_xy binary64 ?xs = Inr ?h" by code_simp
  have n: "?h \<noteq> []" by simp
  have s: "set ?ys = set ?xs" by code_simp
  from hull_starts_at_least_point [of binary64 ?xs ?h ?ys] e n s
  have "hd ?h = Min (set ?xs)" and "convex_hull_xy binary64 ?ys = convex_hull_xy binary64 ?xs"
    by blast+
  with e n s show ?thesis by blast
qed

section \<open>Chains read from first to last vertex\<close>

text \<open>
  The predicates on a vertex sequence in the order the function returns it: every three
  consecutive vertices turn strictly left, and every point of a set lies on the left of
  (or on) every edge.
\<close>

fun left_turns :: "'a::linordered_idom point list \<Rightarrow> bool" where
  "left_turns (a # b # c # r) \<longleftrightarrow> 0 < orient a b c \<and> left_turns (b # c # r)"
| "left_turns r \<longleftrightarrow> True"

fun edges_left :: "'a::linordered_idom point list \<Rightarrow> 'a point set \<Rightarrow> bool" where
  "edges_left (a # b # r) Q \<longleftrightarrow> (\<forall>q\<in>Q. 0 \<le> orient a b q) \<and> edges_left (b # r) Q"
| "edges_left r Q \<longleftrightarrow> True"

definition neg :: "'a::linordered_idom point \<Rightarrow> 'a point" where
  "neg p = (- fst p, - snd p)"

lemma left_turns_snoc:
  "left_turns (xs @ [c, b, a]) \<longleftrightarrow> left_turns (xs @ [c, b]) \<and> 0 < orient c b a"
  by (induction xs rule: left_turns.induct) auto

lemma edges_left_snoc:
  "edges_left (xs @ [b, a]) Q \<longleftrightarrow> edges_left (xs @ [b]) Q \<and> (\<forall>q\<in>Q. 0 \<le> orient b a q)"
  by (induction xs Q rule: edges_left.induct) auto

lemma left_turns_rev: "left_turns (rev st) \<longleftrightarrow> sturns st"
  by (induction st rule: sturns.induct) (auto simp: left_turns_snoc)

lemma edges_left_rev: "edges_left (rev st) Q \<longleftrightarrow> ssupp st Q"
  by (induction st Q rule: ssupp.induct) (auto simp: edges_left_snoc)

lemma left_turns_tl: "left_turns (a # r) \<Longrightarrow> left_turns r"
  by (induction r rule: left_turns.induct) auto

lemma edges_left_tl: "edges_left (a # r) Q \<Longrightarrow> edges_left r Q"
  by (cases r) auto

lemma left_turns_drop: "left_turns (xs @ ys) \<Longrightarrow> left_turns ys"
  by (induction xs) (auto dest: left_turns_tl)

lemma edges_left_drop: "edges_left (xs @ ys) Q \<Longrightarrow> edges_left ys Q"
  by (induction xs) (auto dest: edges_left_tl)

lemma edges_left_mono: "edges_left xs Q \<Longrightarrow> P \<subseteq> Q \<Longrightarrow> edges_left xs P"
  by (induction xs Q rule: edges_left.induct) auto

text \<open>Two left-turning chains that overlap in two vertices glue to one.\<close>

lemma left_turns_glue:
  "left_turns (xs @ [a, b]) \<Longrightarrow> left_turns (a # b # ys) \<Longrightarrow> left_turns (xs @ a # b # ys)"
  by (induction xs rule: left_turns.induct) simp_all

subsection \<open>The point reflection, which swaps the two chains\<close>

lemma orient_neg [simp]: "orient (neg a) (neg b) (neg c) = orient a b c"
  by (simp add: orient_def neg_def algebra_simps)

lemma neg_less [simp]: "neg a < neg b \<longleftrightarrow> b < a"
  by (auto simp: neg_def less_prod_def')

lemma neg_neg [simp]: "neg (neg a) = a"
  by (simp add: neg_def)

lemma neg_eq [simp]: "neg a = neg b \<longleftrightarrow> a = b"
  by (metis neg_neg)

lemma prune_neg: "prune (neg p) (map neg st) = map neg (prune p st)"
  by (induction p st rule: prune.induct) auto

lemma scan_neg: "scan (map neg st) (map neg ps) = map neg (scan st ps)"
proof (induction ps arbitrary: st)
  case Nil
  show ?case by simp
next
  case (Cons p ps)
  have "scan (map neg (p # prune p st)) (map neg ps) = map neg (scan (p # prune p st) ps)"
    by (rule Cons.IH)
  then show ?case by (simp add: prune_neg)
qed

lemma left_turns_neg [simp]: "left_turns (map neg xs) \<longleftrightarrow> left_turns xs"
  by (induction xs rule: left_turns.induct) auto

lemma edges_left_neg [simp]: "edges_left (map neg xs) (neg ` Q) \<longleftrightarrow> edges_left xs Q"
  by (induction xs Q rule: edges_left.induct) auto

lemma sorted_neg [simp]: "sorted_wrt (<) (map neg xs) \<longleftrightarrow> sorted_wrt (>) xs"
  by (simp add: sorted_wrt_map)

lemma sorted_neg' [simp]: "sorted_wrt (>) (map neg xs) \<longleftrightarrow> sorted_wrt (<) xs"
  by (simp add: sorted_wrt_map)

section \<open>The lower and the upper chain\<close>

definition lchain :: "'a::linordered_idom point set \<Rightarrow> 'a point list \<Rightarrow> bool" where
  "lchain Q L \<longleftrightarrow> sorted_wrt (<) L \<and> left_turns L \<and> edges_left L Q \<and> set L \<subseteq> Q"

definition uchain :: "'a::linordered_idom point set \<Rightarrow> 'a point list \<Rightarrow> bool" where
  "uchain Q U \<longleftrightarrow> sorted_wrt (>) U \<and> left_turns U \<and> edges_left U Q \<and> set U \<subseteq> Q"

lemma uchain_neg: "lchain (neg ` Q) (map neg U) \<longleftrightarrow> uchain Q U"
  by (auto simp: lchain_def uchain_def)

lemma lchain_neg: "uchain (neg ` Q) (map neg L) \<longleftrightarrow> lchain Q L"
  by (auto simp: lchain_def uchain_def)

lemma lower_facts:
  assumes "sorted_wrt (<) ps" "2 \<le> length ps"
  shows "lchain (set ps) (rev (scan [] ps))"
    and "hd (rev (scan [] ps)) = hd ps"
    and "last (rev (scan [] ps)) = last ps"
    and "2 \<le> length (rev (scan [] ps))"
proof -
  from assms(2) have ne: "ps \<noteq> []" by auto
  from inv_scan_Nil [OF assms(1) ne] have i: "inv (set ps) (scan [] ps)" .
  then show "lchain (set ps) (rev (scan [] ps))"
    by (simp add: inv_def lchain_def left_turns_rev edges_left_rev sorted_wrt_rev)
  from scan_ends [OF assms(1) ne]
  show "hd (rev (scan [] ps)) = hd ps" "last (rev (scan [] ps)) = last ps"
    by (simp_all add: hd_rev last_rev)
  from tl_scan_nonempty [OF assms] show "2 \<le> length (rev (scan [] ps))"
    by (cases "scan [] ps"; cases "tl (scan [] ps)") auto
qed

lemma upper_facts:
  assumes "sorted_wrt (<) ps" "2 \<le> length ps"
  shows "uchain (set ps) (rev (scan [] (rev ps)))"
    and "hd (rev (scan [] (rev ps))) = last ps"
    and "last (rev (scan [] (rev ps))) = hd ps"
    and "2 \<le> length (rev (scan [] (rev ps)))"
proof -
  let ?ps' = "map neg (rev ps)"
  let ?U = "rev (scan [] (rev ps))"
  from assms(2) have ne: "ps \<noteq> []" by auto
  have so: "sorted_wrt (<) ?ps'" using assms(1) by (simp add: sorted_wrt_rev)
  have len: "2 \<le> length ?ps'" using assms(2) by simp
  have eq: "rev (scan [] ?ps') = map neg ?U"
    using scan_neg [of "[]" "rev ps"] by (simp add: rev_map)
  have s: "set ?ps' = neg ` set ps" by simp
  from lower_facts(1) [OF so len] show "uchain (set ps) ?U"
    unfolding eq s by (simp only: uchain_neg)
  from lower_facts(4) [OF so len] show "2 \<le> length ?U" unfolding eq by simp
  then have une: "?U \<noteq> []" by auto
  have rne: "rev ps \<noteq> []" using ne by simp
  from lower_facts(2) [OF so len] have "hd (map neg ?U) = hd ?ps'" unfolding eq .
  then have "neg (hd ?U) = neg (hd (rev ps))"
    unfolding hd_map [OF une] hd_map [OF rne] .
  then show "hd ?U = last ps" by (simp add: hd_rev)
  from lower_facts(3) [OF so len] have "last (map neg ?U) = last ?ps'" unfolding eq .
  then have "neg (last ?U) = neg (last (rev ps))"
    unfolding last_map [OF une] last_map [OF rne] .
  then show "last ?U = hd ps" by (simp add: last_rev)
qed

subsection \<open>No vertex lies on both chains, and the chains meet in strict turns\<close>

lemma geo_no_common:
  assumes "a < x" "x < b" "d < x" "x < c"
    and "0 < orient a x b" "0 < orient c x d" "0 \<le> orient x b c" "0 \<le> orient a x d"
  shows False
proof -
  have A: "lexpos (vec x b)" and B: "lexpos (vec a x)" and C: "lexpos (vec x c)"
    and D: "lexpos (vec d x)"
    using assms(1-4) by (simp_all add: less_lexpos)
  have BA: "0 < det (vec a x) (vec x b)" using assms(5) by (simp add: orient_mid)
  have CD: "0 < det (vec x c) (vec d x)"
    using assms(6) by (simp add: orient_mid det_vec_rev [of _ x d] det_vec_rev2 [of x c])
  have AC: "0 \<le> det (vec x b) (vec x c)" using assms(7) by (simp add: orient_det)
  have BD: "det (vec a x) (vec d x) \<le> 0"
    using assms(8) by (simp add: orient_mid det_vec_rev [of _ x d])
  from det_trans_less2 [OF B A C BA AC] have BC: "0 < det (vec a x) (vec x c)" .
  from CD have "0 \<le> det (vec x c) (vec d x)" by simp
  from det_trans_less2 [OF B C D BC this] BD show False by simp
qed

lemma geo_junction_lower:
  assumes "a' < a" "a < t" "u < t"
    and "0 < orient a' a t" "0 \<le> orient a t u" "0 \<le> orient t u a'"
  shows "0 < orient a t u"
proof (rule ccontr)
  assume "\<not> 0 < orient a t u"
  with assms(5) have z: "orient a t u = 0" by simp
  have d: "lexpos (vec a t)" and e: "lexpos (vec u t)" and d': "lexpos (vec a' a)"
    using assms(1-3) by (simp_all add: less_lexpos)
  from z have de: "det (vec a t) (vec u t) = 0"
    by (simp add: orient_mid det_vec_rev [of _ t u])
  have "orient t u a' = det (vec u t) (vec a' a) + det (vec u t) (vec a t)"
    by (simp add: orient_det det_vec_rev [of _ t a'] det_vec_rev2 [of t u]
        det_vec_split [of _ a' t a])
  moreover have "det (vec u t) (vec a t) = 0" using de by (simp add: det_swap [of "vec u t"])
  ultimately have ed': "0 \<le> det (vec u t) (vec a' a)" using assms(6) by simp
  from de have "0 \<le> det (vec a t) (vec u t)" by simp
  from det_trans [OF d e d' this ed'] have "0 \<le> det (vec a t) (vec a' a)" .
  moreover have "0 < det (vec a' a) (vec a t)" using assms(4) by (simp add: orient_mid)
  ultimately show False by (simp add: det_swap [of "vec a t"])
qed

lemma geo_junction_upper:
  assumes "a < t" "u' < u" "u < t"
    and "0 < orient t u u'" "0 \<le> orient a t u" "0 \<le> orient a t u'"
  shows "0 < orient a t u"
proof (rule ccontr)
  assume "\<not> 0 < orient a t u"
  with assms(5) have z: "orient a t u = 0" by simp
  have d: "lexpos (vec a t)" and e: "lexpos (vec u t)" and e': "lexpos (vec u' u)"
    using assms(1-3) by (simp_all add: less_lexpos)
  from z have de: "det (vec a t) (vec u t) = 0"
    by (simp add: orient_mid det_vec_rev [of _ t u])
  have ee': "0 < det (vec u t) (vec u' u)"
    using assms(4) by (simp add: orient_mid det_vec_rev [of _ u u'] det_vec_rev2 [of t u])
  have "orient a t u' = - det (vec a t) (vec u t) - det (vec a t) (vec u' u)"
    by (simp add: orient_mid det_vec_split [of _ t u' u] det_vec_rev [of _ t u]
        det_vec_rev [of _ u u'])
  with de assms(6) have "det (vec a t) (vec u' u) \<le> 0" by simp
  then have e'd: "0 \<le> det (vec u' u) (vec a t)" by (simp add: det_swap [of "vec u' u"])
  from det_trans_less2 [OF e e' d ee' e'd] have "0 < det (vec u t) (vec a t)" .
  with de show False by (simp add: det_swap [of "vec u t"])
qed

lemma junction:
  assumes L: "lchain Q (zs @ [a, t])" and U: "uchain Q (t # u # r)"
    and big: "zs \<noteq> [] \<or> r \<noteq> []"
  shows "0 < orient a t u"
proof -
  from L have at: "a < t" by (simp add: lchain_def sorted_wrt_append)
  from U have ut: "u < t" and uQ: "u \<in> Q" by (simp_all add: uchain_def)
  from L have "edges_left (zs @ [a, t]) Q" by (simp add: lchain_def)
  then have "edges_left [a, t] Q" by (rule edges_left_drop)
  then have edge_at: "\<forall>q\<in>Q. 0 \<le> orient a t q" by simp
  from U have edge_tu: "\<forall>q\<in>Q. 0 \<le> orient t u q" by (simp add: uchain_def)
  from big show ?thesis
  proof
    assume "zs \<noteq> []"
    then obtain zs' a' where zs: "zs = zs' @ [a']" by (metis rev_exhaust)
    from L zs have a'a: "a' < a" and a'Q: "a' \<in> Q"
      by (simp_all add: lchain_def sorted_wrt_append)
    from L zs have "left_turns (zs' @ [a', a, t])" by (simp add: lchain_def)
    then have "left_turns [a', a, t]" by (rule left_turns_drop)
    then have "0 < orient a' a t" by simp
    from geo_junction_lower [OF a'a at ut this] edge_at edge_tu uQ a'Q
    show ?thesis by simp
  next
    assume "r \<noteq> []"
    then obtain u' r' where r: "r = u' # r'" by (cases r) auto
    from U r have u'u: "u' < u" and u'Q: "u' \<in> Q" and "0 < orient t u u'"
      by (simp_all add: uchain_def)
    from geo_junction_upper [OF at u'u ut this(3)] edge_at uQ u'Q
    show ?thesis by simp
  qed
qed

lemma interior_split:
  assumes "x \<in> set xs" "x \<noteq> hd xs" "x \<noteq> last xs"
  shows "\<exists>pre a b post. xs = pre @ a # x # b # post"
proof -
  from assms(1) obtain ys zs where xs: "xs = ys @ x # zs" by (auto simp: in_set_conv_decomp)
  from assms(2) xs have "ys \<noteq> []" by (cases ys) auto
  then obtain pre a where ys: "ys = pre @ [a]" by (metis rev_exhaust)
  from assms(3) xs have "zs \<noteq> []" by auto
  then obtain b post where zs: "zs = b # post" by (cases zs) auto
  from xs ys zs show ?thesis by auto
qed

lemma chains_disjoint:
  assumes L: "lchain Q L" and U: "uchain Q U"
    and ends: "hd L = last U" "last L = hd U"
  shows "set (butlast L) \<inter> set (butlast U) = {}"
proof (rule ccontr)
  assume "set (butlast L) \<inter> set (butlast U) \<noteq> {}"
  then obtain x where xL: "x \<in> set (butlast L)" and xU: "x \<in> set (butlast U)" by auto
  from L have dL: "distinct L" by (simp add: lchain_def strict_sorted_iff)
  from U have "sorted_wrt (<) (rev U)" by (simp add: uchain_def sorted_wrt_rev)
  then have "distinct (rev U)" by (simp only: strict_sorted_iff)
  then have dU: "distinct U" by simp
  from xL have Lne: "L \<noteq> []" by auto
  from xU have Une: "U \<noteq> []" by auto
  have x1: "x \<noteq> last L"
    using dL xL Lne by (metis append_butlast_last_id distinct_append disjoint_iff list.set_intros(1))
  have x2: "x \<noteq> last U"
    using dU xU Une by (metis append_butlast_last_id distinct_append disjoint_iff list.set_intros(1))
  from xL have xL': "x \<in> set L" by (rule in_set_butlastD)
  from xU have xU': "x \<in> set U" by (rule in_set_butlastD)
  from interior_split [OF xL' _ x1] x2 ends
  obtain pre a b post where Leq: "L = pre @ a # x # b # post" by auto
  from interior_split [OF xU' _ x2] x1 ends
  obtain pre' c d post' where Ueq: "U = pre' @ c # x # d # post'" by auto
  from L Leq have so: "a < x" "x < b" and aQ: "a \<in> Q" "b \<in> Q"
    by (simp_all add: lchain_def sorted_wrt_append)
  from U Ueq have so': "d < x" "x < c" and cQ: "c \<in> Q" "d \<in> Q"
    by (simp_all add: uchain_def sorted_wrt_append)
  from L Leq have "left_turns (pre @ a # x # b # post)" by (simp add: lchain_def)
  then have "left_turns (a # x # b # post)" by (rule left_turns_drop)
  then have t1: "0 < orient a x b" by simp
  from U Ueq have "left_turns (pre' @ c # x # d # post')" by (simp add: uchain_def)
  then have "left_turns (c # x # d # post')" by (rule left_turns_drop)
  then have t2: "0 < orient c x d" by simp
  from L Leq have "edges_left (pre @ a # x # b # post) Q" by (simp add: lchain_def)
  then have "edges_left (a # x # b # post) Q" by (rule edges_left_drop)
  with cQ have e: "0 \<le> orient x b c" "0 \<le> orient a x d" by simp_all
  from geo_no_common [OF so so' t1 t2 e] show False .
qed

section \<open>The returned polygon\<close>

text \<open>
  The property of claim C5: every three cyclically consecutive vertices of the output make
  a strict left turn, their cross product \<open>cr\<close> being positive. The second predicate
  says that the traversal is counter-clockwise around a point set: every point of the set
  is on the left of, or on, every directed edge.
\<close>

definition strict_ccw ::
  "('a point \<Rightarrow> 'a point \<Rightarrow> 'a point \<Rightarrow> 'a::{linorder,zero}) \<Rightarrow> 'a point list \<Rightarrow> bool" where
  "strict_ccw cr h \<longleftrightarrow>
     (\<forall>i<length h. 0 < cr (h ! i) (h ! ((i + 1) mod length h)) (h ! ((i + 2) mod length h)))"

definition ccw_around :: "'a::linordered_idom point list \<Rightarrow> 'a point set \<Rightarrow> bool" where
  "ccw_around h Q \<longleftrightarrow>
     (\<forall>i<length h. \<forall>q\<in>Q. 0 \<le> orient (h ! i) (h ! ((i + 1) mod length h)) q)"

lemma left_turns_nth:
  "left_turns xs \<Longrightarrow> i + 2 < length xs \<Longrightarrow> 0 < orient (xs ! i) (xs ! (i + 1)) (xs ! (i + 2))"
proof (induction xs arbitrary: i rule: left_turns.induct)
  case (1 a b c r)
  show ?case
  proof (cases i)
    case 0
    with 1(2) show ?thesis by simp
  next
    case (Suc j)
    from 1(2) have "left_turns (b # c # r)" by simp
    moreover from 1(3) Suc have "j + 2 < length (b # c # r)" by simp
    ultimately have "0 < orient ((b # c # r) ! j) ((b # c # r) ! (j + 1)) ((b # c # r) ! (j + 2))"
      by (rule 1(1))
    with Suc show ?thesis by simp
  qed
qed simp_all

lemma edges_left_nth:
  "edges_left xs Q \<Longrightarrow> i + 1 < length xs \<Longrightarrow> q \<in> Q \<Longrightarrow> 0 \<le> orient (xs ! i) (xs ! (i + 1)) q"
proof (induction xs Q arbitrary: i rule: edges_left.induct)
  case (1 a b r Q)
  show ?case
  proof (cases i)
    case 0
    with 1(2,4) show ?thesis by simp
  next
    case (Suc j)
    from 1(2) have "edges_left (b # r) Q" by simp
    moreover from 1(3) Suc have "j + 1 < length (b # r)" by simp
    ultimately have "0 \<le> orient ((b # r) ! j) ((b # r) ! (j + 1)) q"
      using 1(4) by (rule 1(1))
    with Suc show ?thesis by simp
  qed
qed simp_all

lemma edges_left_glue:
  "edges_left (xs @ [a]) Q \<Longrightarrow> edges_left (a # ys) Q \<Longrightarrow> edges_left (xs @ a # ys) Q"
  by (induction xs Q rule: edges_left.induct) simp_all

lemma cyclic_nth:
  assumes "k \<le> length h" "j < length h + k"
  shows "(h @ take k h) ! j = h ! (j mod length h)"
proof (cases "j < length h")
  case True
  then show ?thesis by (simp add: nth_append)
next
  case False
  then have le: "length h \<le> j" by simp
  with assms have lt: "j - length h < k" by simp
  with assms(1) have lt': "j - length h < length h" by simp
  from le lt' have "j mod length h = j - length h"
    by (metis le_add_diff_inverse mod_add_self1 mod_less)
  with False lt show ?thesis by (simp add: nth_append)
qed

lemma two_snoc: "2 \<le> length xs \<Longrightarrow> \<exists>zs a t. xs = zs @ [a, t]"
proof -
  assume len: "2 \<le> length xs"
  then have "xs \<noteq> []" by auto
  then have 1: "xs = butlast xs @ [last xs]" by simp
  from len have "butlast xs \<noteq> []" by (cases xs; cases "tl xs") auto
  then have 2: "butlast xs = butlast (butlast xs) @ [last (butlast xs)]" by simp
  have "xs = butlast (butlast xs) @ [last (butlast xs), last xs]"
    by (subst 1, subst 2) simp
  then show ?thesis by blast
qed

lemma two_cons: "2 \<le> length xs \<Longrightarrow> \<exists>a b r. xs = a # b # r"
  by (cases xs; cases "tl xs") auto

lemma closed_chain:
  assumes L: "lchain Q L" and U: "uchain Q U"
    and ends: "hd L = last U" "last L = hd U"
    and len: "2 \<le> length L" "2 \<le> length U"
  shows "butlast L @ butlast U = L @ tl (butlast U)"
    and "edges_left (butlast L @ butlast U @ take 1 L) Q"
    and "5 \<le> length L + length U \<Longrightarrow> left_turns (butlast L @ butlast U @ take 2 L)"
proof -
  from two_snoc [OF len(1)] obtain zs a t where Leq: "L = zs @ [a, t]" by blast
  from two_cons [OF len(2)] obtain t' u r where Ueq': "U = t' # u # r" by blast
  with ends(2) Leq have Ueq: "U = t # u # r" by simp
  from two_snoc [OF len(2)] obtain ws b e where Uend': "U = ws @ [b, e]" by blast
  from two_cons [OF len(1)] obtain s l rest where Lbeg': "L = s # l # rest" by blast
  with ends(1) Uend' have Uend: "U = ws @ [b, s]" by simp
  note Lbeg = Lbeg'
  have bl: "butlast L = zs @ [a]" using Leq by (simp add: butlast_append)
  have bu: "butlast U = t # butlast (u # r)" using Ueq by simp
  show decomp: "butlast L @ butlast U = L @ tl (butlast U)"
    using bl bu Leq by simp
  have bu': "butlast U = ws @ [b]" using Uend by (simp add: butlast_append)
  have closeU: "butlast U @ [s] = U" using bu' Uend by simp
  have closeL: "butlast L @ [t] = L" using bl Leq by simp
  \<comment> \<open>the edges\<close>
  from L have eL: "edges_left (butlast L @ [t]) Q" unfolding closeL by (simp add: lchain_def)
  from U have eU: "edges_left (t # u # r) Q" unfolding Ueq [symmetric] by (simp add: uchain_def)
  from edges_left_glue [OF eL eU] have "edges_left (butlast L @ U) Q" unfolding Ueq .
  moreover have "butlast L @ butlast U @ take 1 L = butlast L @ U"
    using closeU Lbeg by simp
  ultimately show "edges_left (butlast L @ butlast U @ take 1 L) Q" by simp
  \<comment> \<open>the turns\<close>
  assume big: "5 \<le> length L + length U"
  from big Leq Ueq have big1: "zs \<noteq> [] \<or> r \<noteq> []" by auto
  from big Lbeg Uend have big2: "ws \<noteq> [] \<or> rest \<noteq> []" by auto
  from L U have j1: "0 < orient a t u"
    unfolding Leq Ueq using big1 by (rule junction)
  have "lchain (neg ` Q) (map neg ws @ [neg b, neg s])"
    using U unfolding Uend by (simp add: uchain_neg [symmetric])
  moreover have "uchain (neg ` Q) (neg s # neg l # map neg rest)"
    using L unfolding Lbeg by (simp add: lchain_neg [symmetric])
  moreover from big2 have "map neg ws \<noteq> [] \<or> map neg rest \<noteq> []" by simp
  ultimately have "0 < orient (neg b) (neg s) (neg l)" by (rule junction)
  then have j2: "0 < orient b s l" by simp
  from L have tL: "left_turns (zs @ [a, t])" unfolding Leq by (simp add: lchain_def)
  from U have tU: "left_turns (t # u # r)" unfolding Ueq by (simp add: uchain_def)
  with j1 have "left_turns (a # t # u # r)" by simp
  with tL have "left_turns (zs @ a # t # u # r)" by (rule left_turns_glue)
  then have "left_turns (butlast L @ U)" using bl Ueq by simp
  then have "left_turns ((butlast L @ ws) @ [b, s])" using Uend by simp
  moreover from j2 have "left_turns (b # s # [l])" by simp
  ultimately have "left_turns ((butlast L @ ws) @ b # s # [l])" by (rule left_turns_glue)
  moreover have "butlast L @ butlast U @ take 2 L = (butlast L @ ws) @ b # s # [l]"
    using bu' Lbeg by simp
  ultimately show "left_turns (butlast L @ butlast U @ take 2 L)" by simp
qed

lemma hull_struct:
  assumes "hull xs \<noteq> []"
  obtains L U where "hull xs = butlast L @ butlast U"
    and "lchain (set xs) L" and "uchain (set xs) U"
    and "hd L = last U" and "last L = hd U" and "2 \<le> length L" and "2 \<le> length U"
proof -
  let ?pts = "sort (remdups xs)"
  let ?L = "rev (scan [] ?pts)" and ?U = "rev (scan [] (rev ?pts))"
  from assms have len: "3 \<le> length ?pts" by (auto simp: hull_def Let_def split: if_splits)
  then have len2: "2 \<le> length ?pts" by simp
  have so: "sorted_wrt (<) ?pts" by (rule pts_sorted)
  have s: "set ?pts = set xs" by simp
  from len have "hull xs = butlast ?L @ butlast ?U"
    by (simp add: hull_def Let_def butlast_rev)
  moreover from lower_facts(1) [OF so len2] have "lchain (set xs) ?L" unfolding s .
  moreover from upper_facts(1) [OF so len2] have "uchain (set xs) ?U" unfolding s .
  moreover have "hd ?L = last ?U"
    using lower_facts(2) [OF so len2] upper_facts(3) [OF so len2] by simp
  moreover have "last ?L = hd ?U"
    using lower_facts(3) [OF so len2] upper_facts(2) [OF so len2] by simp
  ultimately show thesis
    using lower_facts(4) [OF so len2] upper_facts(4) [OF so len2] by (rule that)
qed

lemma distinct_hull: "distinct (hull xs)"
proof (cases "hull xs = []")
  case True
  then show ?thesis by simp
next
  case False
  then obtain L U where h: "hull xs = butlast L @ butlast U"
    and L: "lchain (set xs) L" and U: "uchain (set xs) U"
    and ends: "hd L = last U" "last L = hd U"
    by (rule hull_struct)
  from L have "distinct L" by (simp add: lchain_def strict_sorted_iff)
  then have dL: "distinct (butlast L)" by (rule distinct_butlast)
  from U have "sorted_wrt (<) (rev U)" by (simp add: uchain_def sorted_wrt_rev)
  then have "distinct (rev U)" by (simp only: strict_sorted_iff)
  then have "distinct U" by simp
  then have dU: "distinct (butlast U)" by (rule distinct_butlast)
  from chains_disjoint [OF L U ends] dL dU h show ?thesis by simp
qed

lemma length_hull_not_one: "length (hull xs) \<noteq> Suc 0"
proof (cases "hull xs = []")
  case True
  then show ?thesis by simp
next
  case False
  then obtain L U where h: "hull xs = butlast L @ butlast U"
    and len: "2 \<le> length L" "2 \<le> length U"
    by (rule hull_struct)
  then show ?thesis by simp
qed

lemma hull_ccw_around:
  assumes "hull xs \<noteq> []"
  shows "ccw_around (hull xs) (set xs)"
proof -
  from assms obtain L U where h: "hull xs = butlast L @ butlast U"
    and L: "lchain (set xs) L" and U: "uchain (set xs) U"
    and ends: "hd L = last U" "last L = hd U"
    and len: "2 \<le> length L" "2 \<le> length U"
    by (rule hull_struct)
  let ?h = "hull xs"
  from closed_chain(1) [OF L U ends len] h have hL: "?h = L @ tl (butlast U)" by simp
  with len(1) have t1: "take 1 ?h = take 1 L" by simp
  have "?h @ take 1 ?h = butlast L @ butlast U @ take 1 L"
    unfolding t1 by (simp only: h append_assoc)
  with closed_chain(2) [OF L U ends len] have e: "edges_left (?h @ take 1 ?h) (set xs)"
    by simp
  from assms have n1: "1 \<le> length ?h" by (cases ?h) auto
  show ?thesis
    unfolding ccw_around_def
  proof (intro allI impI ballI)
    fix i q assume i: "i < length ?h" and q: "q \<in> set xs"
    from n1 have "length (?h @ take 1 ?h) = length ?h + 1" by simp
    with i have "i + 1 < length (?h @ take 1 ?h)" by simp
    from edges_left_nth [OF e this q]
    have "0 \<le> orient ((?h @ take 1 ?h) ! i) ((?h @ take 1 ?h) ! (i + 1)) q" .
    moreover have "(?h @ take 1 ?h) ! i = ?h ! i" using i by (simp add: nth_append)
    moreover have "(?h @ take 1 ?h) ! (i + 1) = ?h ! ((i + 1) mod length ?h)"
      using n1 i by (intro cyclic_nth) simp_all
    ultimately show "0 \<le> orient (?h ! i) (?h ! ((i + 1) mod length ?h)) q" by simp
  qed
qed

lemma hull_strict_ccw:
  assumes "3 \<le> length (hull xs)"
  shows "strict_ccw orient (hull xs)"
proof -
  from assms have "hull xs \<noteq> []" by auto
  then obtain L U where h: "hull xs = butlast L @ butlast U"
    and L: "lchain (set xs) L" and U: "uchain (set xs) U"
    and ends: "hd L = last U" "last L = hd U"
    and len: "2 \<le> length L" "2 \<le> length U"
    by (rule hull_struct)
  let ?h = "hull xs"
  from assms h len have big: "5 \<le> length L + length U" by simp
  from closed_chain(1) [OF L U ends len] h have hL: "?h = L @ tl (butlast U)" by simp
  with len(1) have t2: "take 2 ?h = take 2 L" by simp
  have "?h @ take 2 ?h = butlast L @ butlast U @ take 2 L"
    unfolding t2 by (simp only: h append_assoc)
  with closed_chain(3) [OF L U ends len big] have t: "left_turns (?h @ take 2 ?h)"
    by simp
  from assms have n2: "2 \<le> length ?h" by simp
  show ?thesis
    unfolding strict_ccw_def
  proof (intro allI impI)
    fix i assume i: "i < length ?h"
    from n2 have "length (?h @ take 2 ?h) = length ?h + 2" by simp
    with i have "i + 2 < length (?h @ take 2 ?h)" by simp
    from left_turns_nth [OF t this]
    have "0 < orient ((?h @ take 2 ?h) ! i) ((?h @ take 2 ?h) ! (i + 1)) ((?h @ take 2 ?h) ! (i + 2))" .
    moreover have "(?h @ take 2 ?h) ! i = ?h ! i" using i by (simp add: nth_append)
    moreover have "(?h @ take 2 ?h) ! (i + 1) = ?h ! ((i + 1) mod length ?h)"
      using n2 i by (intro cyclic_nth) simp_all
    moreover have "(?h @ take 2 ?h) ! (i + 2) = ?h ! ((i + 2) mod length ?h)"
      using n2 i by (intro cyclic_nth) simp_all
    ultimately show "0 < orient (?h ! i) (?h ! ((i + 1) mod length ?h)) (?h ! ((i + 2) mod length ?h))"
      by simp
  qed
qed

section \<open>The claims that depend on the sign of the cross product\<close>

text \<open>
  The doubles of the examples, in units of \<open>2\<^sup>-\<^sup>5\<^sup>3\<close>: \<open>double_53 m k\<close> is the double
  \<open>m / 2\<^sup>k\<close>. Python shows the double \<open>3602879701896397 / 2\<^sup>5\<^sup>1\<close> as \<^verbatim>\<open>1.6\<close>,
  \<open>5404319552844595 / 2\<^sup>5\<^sup>3\<close> as \<^verbatim>\<open>0.6\<close>, \<open>7656119366529843 / 2\<^sup>5\<^sup>2\<close> as \<^verbatim>\<open>1.7\<close> and
  \<open>8106479329266893 / 2\<^sup>5\<^sup>2\<close> as \<^verbatim>\<open>1.8\<close>.
\<close>

definition double_53 :: "int \<Rightarrow> nat \<Rightarrow> int" where
  "double_53 m k = m * 2 ^ (53 - k)"

lemma ex_collinear:
  "convex_hull_xy binary64 [(0, 0), (1, 0), (2, 0)] = Inr [(0, 0), (2, 0)]"
  by code_simp

lemma ex_square_exact:
  "sign_exact binary64 [(0, 0), (4, 0), (4, 4), (0, 4), (2, 2)]"
  by code_simp

lemma ex_rounding:
  "convex_hull_xy binary64
     [(double_53 3 1, double_53 3602879701896397 51),
      (double_53 1 1, double_53 5404319552844595 53),
      (double_53 7656119366529843 52, double_53 8106479329266893 52)]
   = Inr [(double_53 1 1, double_53 5404319552844595 53),
          (double_53 3 1, double_53 3602879701896397 51),
          (double_53 7656119366529843 52, double_53 8106479329266893 52),
          (double_53 3 1, double_53 3602879701896397 51)]"
  by code_simp

lemma scan_short: "\<not> 2 \<le> length ps \<Longrightarrow> butlast (rev (scan [] ps)) = []"
  by (cases ps; cases "tl ps") auto

text \<open>
  Claim C10, as stated: the output never repeats a vertex. The doubles
  \<^verbatim>\<open>[(1.5, 1.6), (0.5, 0.6), (1.7, 1.8)]\<close> refute it: both cross products of the three
  points round to a positive double, no point is popped from either chain, and the
  output is \<^verbatim>\<open>[(0.5, 0.6), (1.5, 1.6), (1.7, 1.8), (1.5, 1.6)]\<close>.
\<close>

theorem hull_no_duplicates_counterexample:
  "convex_hull_xy binary64
     [(double_53 3 1, double_53 3602879701896397 51),
      (double_53 1 1, double_53 5404319552844595 53),
      (double_53 7656119366529843 52, double_53 8106479329266893 52)]
   = Inr [(double_53 1 1, double_53 5404319552844595 53),
          (double_53 3 1, double_53 3602879701896397 51),
          (double_53 7656119366529843 52, double_53 8106479329266893 52),
          (double_53 3 1, double_53 3602879701896397 51)]
   \<and> \<not> distinct
         [(double_53 1 1, double_53 5404319552844595 53),
          (double_53 3 1, double_53 3602879701896397 51),
          (double_53 7656119366529843 52, double_53 8106479329266893 52),
          (double_53 3 1, double_53 3602879701896397 51)]"
  using ex_rounding by simp

text \<open>
  Claim C10, amended: on every input on which each cross product that the code computes
  for three input points is \<open>\<le> 0\<close> exactly when the exact cross product is, as it is in
  exact arithmetic, the returned sequence has no repeated vertex, and the two chain
  prefixes that are concatenated have no point in common.
\<close>

theorem hull_no_duplicates:
  "sign_exact ops xs \<Longrightarrow>
   (convex_hull_xy ops xs = Inr h \<longrightarrow> distinct h)
   \<and> (build_chain ops [] (sort (remdups xs)) = Inr lower
       \<and> build_chain ops [] (rev (sort (remdups xs))) = Inr upper
      \<longrightarrow> set (butlast lower) \<inter> set (butlast upper) = {})"
proof (intro conjI impI)
  assume se: "sign_exact ops xs"
  assume "convex_hull_xy ops xs = Inr h"
  with se have "h = hull xs" by (simp add: convex_hull_xy_hull)
  then show "distinct h" using distinct_hull [of xs] by simp
next
  let ?pts = "sort (remdups xs)"
  assume se: "sign_exact ops xs"
  then have a: "\<forall>og\<in>set xs. \<forall>a\<in>set xs. \<forall>b\<in>set xs.
      (cross ops og a b \<le> 0) = (orient og a b \<le> 0)"
    by (simp add: sign_exact_def)
  have g1: "gscan (cross ops) [] ?pts = scan [] ?pts" by (rule gscan_agree [OF a]) simp
  have g2: "gscan (cross ops) [] (rev ?pts) = scan [] (rev ?pts)"
    by (rule gscan_agree [OF a]) simp
  assume "build_chain ops [] ?pts = Inr lower \<and> build_chain ops [] (rev ?pts) = Inr upper"
  then have lo: "lower = rev (scan [] ?pts)" and up: "upper = rev (scan [] (rev ?pts))"
    by (simp_all add: build_chain_Nil g1 g2)
  show "set (butlast lower) \<inter> set (butlast upper) = {}"
  proof (cases "2 \<le> length ?pts")
    case True
    have so: "sorted_wrt (<) ?pts" by (rule pts_sorted)
    have "hd lower = last upper" "last lower = hd upper"
      unfolding lo up
      using lower_facts(2,3) [OF so True] upper_facts(2,3) [OF so True] by simp_all
    with lower_facts(1) [OF so True] upper_facts(1) [OF so True] show ?thesis
      unfolding lo up by (intro chains_disjoint)
  next
    case False
    then have "butlast lower = []" unfolding lo by (rule scan_short)
    then show ?thesis by simp
  qed
qed

theorem hull_no_duplicates_witness:
  "sign_exact binary64 [(0, 0), (4, 0), (4, 4), (0, 4), (2, 2)]
   \<and> convex_hull_xy binary64 [(0, 0), (4, 0), (4, 4), (0, 4), (2, 2)]
     = Inr [(0, 0), (4, 0), (4, 4), (0, 4)]
   \<and> distinct ([(0, 0), (4, 0), (4, 4), (0, 4)] :: int point list)
   \<and> build_chain binary64 [] (sort (remdups [(0, 0), (4, 0), (4, 4), (0, 4), (2, 2)]))
     = Inr [(0, 0), (4, 0), (4, 4)]
   \<and> build_chain binary64 [] (rev (sort (remdups [(0, 0), (4, 0), (4, 4), (0, 4), (2, 2)])))
     = Inr [(4, 4), (0, 4), (0, 0)]
   \<and> set (butlast ([(0, 0), (4, 0), (4, 4)] :: int point list))
       \<inter> set (butlast [(4, 4), (0, 4), (0, 0)]) = {}"
proof -
  let ?xs = "[(0, 0), (4, 0), (4, 4), (0, 4), (2, 2)] :: int point list"
  have lo: "build_chain binary64 [] (sort (remdups ?xs)) = Inr [(0, 0), (4, 0), (4, 4)]"
    by code_simp
  have up: "build_chain binary64 [] (rev (sort (remdups ?xs))) = Inr [(4, 4), (0, 4), (0, 0)]"
    by code_simp
  from hull_no_duplicates [OF ex_square_exact, of "[(0, 0), (4, 0), (4, 4), (0, 4)]"
      "[(0, 0), (4, 0), (4, 4)]" "[(4, 4), (0, 4), (0, 0)]"] ex_square lo up
  have "distinct ([(0, 0), (4, 0), (4, 4), (0, 4)] :: int point list)"
    and "set (butlast ([(0, 0), (4, 0), (4, 4)] :: int point list))
       \<inter> set (butlast [(4, 4), (0, 4), (0, 0)]) = {}"
    by blast+
  with ex_square_exact ex_square lo up show ?thesis by blast
qed

lemma strict_ccw_computed:
  assumes se: "sign_exact ops xs" and sub: "set h \<subseteq> set xs" and t: "strict_ccw orient h"
  shows "strict_ccw (cross ops) h"
  unfolding strict_ccw_def
proof (intro allI impI)
  fix i assume i: "i < length h"
  then have n: "0 < length h" by (cases h) simp_all
  let ?a = "h ! i" and ?b = "h ! ((i + 1) mod length h)" and ?c = "h ! ((i + 2) mod length h)"
  from n have "(i + 1) mod length h < length h" "(i + 2) mod length h < length h" by simp_all
  with i have "?a \<in> set h" "?b \<in> set h" "?c \<in> set h" by (simp_all only: nth_mem)
  with sub have m: "?a \<in> set xs" "?b \<in> set xs" "?c \<in> set xs" by blast+
  from t i have "0 < orient ?a ?b ?c" by (simp add: strict_ccw_def)
  then have "\<not> orient ?a ?b ?c \<le> 0" by simp
  with se m have "\<not> cross ops ?a ?b ?c \<le> 0" by (simp add: sign_exact_def)
  then show "0 < cross ops ?a ?b ?c" by simp
qed

text \<open>
  Claim C5, as stated: whenever the output is not empty, every three cyclically
  consecutive output vertices have a positive cross product. Two inputs refute it. Three
  points on a line, \<^verbatim>\<open>[(0, 0), (1, 0), (2, 0)]\<close>, give the two end points, and going from
  one to the other and back is no turn. On the doubles
  \<^verbatim>\<open>[(1.5, 1.6), (0.5, 0.6), (1.7, 1.8)]\<close> rounding keeps a point in both chains, and
  the output of four vertices goes from \<^verbatim>\<open>(1.5, 1.6)\<close> to \<^verbatim>\<open>(1.7, 1.8)\<close> and back.
\<close>

theorem hull_strict_turns_counterexample:
  "convex_hull_xy binary64 [(0, 0), (1, 0), (2, 0)] = Inr [(0, 0), (2, 0)]
   \<and> ([(0, 0), (2, 0)] :: int point list) \<noteq> []
   \<and> \<not> strict_ccw (cross binary64) [(0, 0), (2, 0)]
   \<and> \<not> strict_ccw orient ([(0, 0), (2, 0)] :: int point list)
   \<and> convex_hull_xy binary64
        [(double_53 3 1, double_53 3602879701896397 51),
         (double_53 1 1, double_53 5404319552844595 53),
         (double_53 7656119366529843 52, double_53 8106479329266893 52)]
      = Inr [(double_53 1 1, double_53 5404319552844595 53),
             (double_53 3 1, double_53 3602879701896397 51),
             (double_53 7656119366529843 52, double_53 8106479329266893 52),
             (double_53 3 1, double_53 3602879701896397 51)]
   \<and> \<not> strict_ccw (cross binary64)
         [(double_53 1 1, double_53 5404319552844595 53),
          (double_53 3 1, double_53 3602879701896397 51),
          (double_53 7656119366529843 52, double_53 8106479329266893 52),
          (double_53 3 1, double_53 3602879701896397 51)]
   \<and> \<not> strict_ccw orient
         [(double_53 1 1, double_53 5404319552844595 53),
          (double_53 3 1, double_53 3602879701896397 51),
          (double_53 7656119366529843 52, double_53 8106479329266893 52),
          (double_53 3 1, double_53 3602879701896397 51)]"
proof -
  let ?h = "[(double_53 1 1, double_53 5404319552844595 53),
          (double_53 3 1, double_53 3602879701896397 51),
          (double_53 7656119366529843 52, double_53 8106479329266893 52),
          (double_53 3 1, double_53 3602879701896397 51)]"
  have same: "cross binary64 a b a = 0" for a b
    by (simp add: cross_def binary64_def round53_def bit_length.simps mult.commute)
  have same': "orient a b a = 0" for a b :: "int point"
    by (simp add: orient_def)
  have 1: "\<not> strict_ccw (cross binary64) [(0, 0), (2, 0)]"
    unfolding strict_ccw_def by (auto simp: same intro!: exI [of _ 0])
  have 2: "\<not> strict_ccw orient ([(0, 0), (2, 0)] :: int point list)"
    unfolding strict_ccw_def by (auto simp: same' intro!: exI [of _ 0])
  have "\<not> 0 < cross binary64 (?h ! 1) (?h ! ((1 + 1) mod length ?h)) (?h ! ((1 + 2) mod length ?h))"
    by (simp add: same)
  then have 3: "\<not> strict_ccw (cross binary64) ?h"
    unfolding strict_ccw_def by (intro notI) (drule spec [of _ 1], simp)
  have "\<not> 0 < orient (?h ! 1) (?h ! ((1 + 1) mod length ?h)) (?h ! ((1 + 2) mod length ?h))"
    by (simp add: same')
  then have 4: "\<not> strict_ccw orient ?h"
    unfolding strict_ccw_def by (intro notI) (drule spec [of _ 1], simp)
  from ex_collinear ex_rounding 1 2 3 4 show ?thesis by simp
qed

text \<open>
  Claim C5, amended: on every input on which each cross product that the code computes
  for three input points is \<open>\<le> 0\<close> exactly when the exact cross product is, an output of
  at least three vertices is in counter-clockwise order and every three cyclically
  consecutive output vertices have a positive cross product, the exact one and the
  computed one; and every non-empty output runs counter-clockwise around the input, each
  input point lying on the left of, or on, each directed edge.
\<close>

theorem hull_strict_turns:
  "convex_hull_xy ops xs = Inr h \<Longrightarrow> sign_exact ops xs \<Longrightarrow>
     (3 \<le> length h \<longrightarrow> strict_ccw orient h \<and> strict_ccw (cross ops) h)
     \<and> (h \<noteq> [] \<longrightarrow> ccw_around h (set xs))"
proof -
  assume "convex_hull_xy ops xs = Inr h" and se: "sign_exact ops xs"
  then have h: "h = hull xs" by (simp add: convex_hull_xy_hull)
  have sub: "set h \<subseteq> set xs" unfolding h by (rule set_hull)
  have "strict_ccw orient h \<and> strict_ccw (cross ops) h" if "3 \<le> length h"
  proof -
    from that h have t: "strict_ccw orient h" using hull_strict_ccw [of xs] by simp
    with se sub show ?thesis by (auto intro: strict_ccw_computed)
  qed
  moreover have "ccw_around h (set xs)" if "h \<noteq> []"
    using that h hull_ccw_around [of xs] by simp
  ultimately show ?thesis by blast
qed

theorem hull_strict_turns_witness:
  "convex_hull_xy binary64 [(0, 0), (4, 0), (4, 4), (0, 4), (2, 2)]
     = Inr [(0, 0), (4, 0), (4, 4), (0, 4)]
   \<and> sign_exact binary64 [(0, 0), (4, 0), (4, 4), (0, 4), (2, 2)]
   \<and> 3 \<le> length ([(0, 0), (4, 0), (4, 4), (0, 4)] :: int point list)
   \<and> strict_ccw orient ([(0, 0), (4, 0), (4, 4), (0, 4)] :: int point list)
   \<and> strict_ccw (cross binary64) [(0, 0), (4, 0), (4, 4), (0, 4)]
   \<and> ([(0, 0), (4, 0), (4, 4), (0, 4)] :: int point list) \<noteq> []
   \<and> ccw_around ([(0, 0), (4, 0), (4, 4), (0, 4)] :: int point list)
       (set [(0, 0), (4, 0), (4, 4), (0, 4), (2, 2)])"
  using hull_strict_turns [OF ex_square ex_square_exact] ex_square ex_square_exact by simp

section \<open>Points on one line\<close>

definition all_collinear :: "'a::linordered_idom point list \<Rightarrow> bool" where
  "all_collinear xs \<longleftrightarrow> (\<forall>p\<in>set xs. \<forall>q\<in>set xs. \<forall>r\<in>set xs. orient p q r = 0)"

text \<open>Points that satisfy one line equation have all their triple products zero.\<close>

lemma line_all_collinear:
  assumes nz: "a \<noteq> 0 \<or> b \<noteq> 0" and line: "\<forall>p\<in>set xs. a * fst p + b * snd p = c"
  shows "all_collinear xs"
  unfolding all_collinear_def
proof (intro ballI)
  fix p q r assume "p \<in> set xs" "q \<in> set xs" "r \<in> set xs"
  with line have p: "a * fst p + b * snd p = c" and q: "a * fst q + b * snd q = c"
    and r: "a * fst r + b * snd r = c" by simp_all
  have 1: "a * (fst q - fst p) = - (b * (snd q - snd p))"
    using p q by (simp add: algebra_simps)
  have 2: "a * (fst r - fst p) = - (b * (snd r - snd p))"
    using p r by (simp add: algebra_simps)
  have "a * orient p q r = (a * (fst q - fst p)) * (snd r - snd p) - (snd q - snd p) * (a * (fst r - fst p))"
    by (simp add: orient_def algebra_simps)
  also have "\<dots> = 0" unfolding 1 2 by (simp add: algebra_simps)
  finally have A: "a * orient p q r = 0" .
  have 3: "b * (snd r - snd p) = - (a * (fst r - fst p))" using 2 by simp
  have 4: "b * (snd q - snd p) = - (a * (fst q - fst p))" using 1 by simp
  have "b * orient p q r = (fst q - fst p) * (b * (snd r - snd p)) - (b * (snd q - snd p)) * (fst r - fst p)"
    by (simp add: orient_def algebra_simps)
  also have "\<dots> = 0" unfolding 3 4 by (simp add: algebra_simps)
  finally have B: "b * orient p q r = 0" .
  from A B nz show "orient p q r = 0" by auto
qed

lemma prune_collinear:
  assumes "\<forall>a\<in>S. \<forall>b\<in>S. \<forall>c\<in>S. orient a b c = 0" "insert p (set st) \<subseteq> S" "st \<noteq> []"
  shows "prune p st = [last st]"
  using assms(2,3)
proof (induction p st rule: prune.induct)
  case (1 p a b st)
  with assms(1) have "orient b a p = 0" by simp
  moreover from 1(2) have "insert p (set (b # st)) \<subseteq> S" by auto
  ultimately show ?case using 1(1) by simp
qed simp_all

lemma scan_collinear:
  assumes "\<forall>a\<in>S. \<forall>b\<in>S. \<forall>c\<in>S. orient a b c = 0"
  shows "set st \<union> set ps \<subseteq> S \<Longrightarrow> st \<noteq> [] \<Longrightarrow> ps \<noteq> [] \<Longrightarrow> scan st ps = [last ps, last st]"
proof (induction ps arbitrary: st)
  case Nil
  then show ?case by simp
next
  case (Cons p ps)
  from Cons.prems have "insert p (set st) \<subseteq> S" by auto
  from prune_collinear [OF assms this Cons.prems(2)] have pr: "prune p st = [last st]" .
  show ?case
  proof (cases "ps = []")
    case True
    with pr show ?thesis by simp
  next
    case False
    from Cons.prems Cons.prems(2) have "set [p, last st] \<union> set ps \<subseteq> S" by auto
    from Cons.IH [OF this _ False] have "scan [p, last st] ps = [last ps, last st]" by simp
    with pr False show ?thesis by simp
  qed
qed

lemma scan_Nil_collinear:
  assumes "\<forall>a\<in>S. \<forall>b\<in>S. \<forall>c\<in>S. orient a b c = 0" "set ps \<subseteq> S" "2 \<le> length ps"
  shows "scan [] ps = [last ps, hd ps]"
proof -
  from two_cons [OF assms(3)] obtain p q r where ps: "ps = p # q # r" by blast
  with assms(2) have "set [p] \<union> set (q # r) \<subseteq> S" by auto
  from scan_collinear [OF assms(1) this] have "scan [p] (q # r) = [last (q # r), p]" by simp
  with ps show ?thesis by simp
qed

lemma last_pts: "xs \<noteq> [] \<Longrightarrow> last (sort (remdups xs)) = Max (set xs)"
proof -
  let ?pts = "sort (remdups xs)"
  assume "xs \<noteq> []"
  have s: "set ?pts = set xs" by simp
  from \<open>xs \<noteq> []\<close> have "set ?pts \<noteq> {}" unfolding s by simp
  then have ne: "?pts \<noteq> []" by (simp only: set_empty not_False_eq_True)
  have "Max (set xs) = last ?pts"
  proof (rule Max_eqI)
    show "finite (set xs)" by simp
    show "last ?pts \<in> set xs" using ne s by (metis last_in_set)
    fix y assume "y \<in> set xs"
    then have "y \<in> set ?pts" by simp
    then show "y \<le> last ?pts" by (intro sorted_last_greatest) simp_all
  qed
  then show ?thesis by simp
qed

lemma hull_collinear:
  assumes "3 \<le> card (set xs)" "all_collinear xs"
  shows "hull xs = [Min (set xs), Max (set xs)]"
proof -
  let ?pts = "sort (remdups xs)"
  from assms(1) have len: "3 \<le> length ?pts" by (simp add: length_pts [simplified])
  then have len2: "2 \<le> length ?pts" "2 \<le> length (rev ?pts)" by simp_all
  from assms(1) have xne: "xs \<noteq> []" by auto
  from assms(2) have col: "\<forall>a\<in>set xs. \<forall>b\<in>set xs. \<forall>c\<in>set xs. orient a b c = 0"
    by (simp add: all_collinear_def)
  have s: "set ?pts \<subseteq> set xs" "set (rev ?pts) \<subseteq> set xs" by simp_all
  have ne: "?pts \<noteq> []"
  proof
    assume "?pts = []"
    then have "length ?pts = 0" by (metis list.size(3))
    with len show False by simp
  qed
  have lo: "scan [] ?pts = [last ?pts, hd ?pts]"
    using col s(1) len2(1) by (rule scan_Nil_collinear)
  have "scan [] (rev ?pts) = [last (rev ?pts), hd (rev ?pts)]"
    using col s(2) len2(2) by (rule scan_Nil_collinear)
  with ne have up: "scan [] (rev ?pts) = [hd ?pts, last ?pts]"
    by (simp add: last_rev hd_rev)
  from len have "hull xs = rev (tl (scan [] ?pts)) @ rev (tl (scan [] (rev ?pts)))"
    by (simp add: hull_def Let_def)
  also have "\<dots> = [hd ?pts, last ?pts]" unfolding lo up by simp
  finally show ?thesis using hd_pts [OF xne] last_pts [OF xne] by simp
qed

text \<open>
  Claim C2, as stated: at least three distinct points on one line give the two end points.
  The doubles \<^verbatim>\<open>[(1.5, 2.5), (2.9, 2.7), (0.8, 2.4)]\<close> refute it. They lie on one line, their
  exact cross products being zero, but the cross product that the code computes for them
  rounds to a positive double, no point is popped, and the output is
  \<^verbatim>\<open>[(0.8, 2.4), (1.5, 2.5), (2.9, 2.7), (1.5, 2.5)]\<close>. Python shows the doubles
  \<open>6530219459687219 / 2\<^sup>5\<^sup>1\<close> as \<^verbatim>\<open>2.9\<close>, \<open>3039929748475085 / 2\<^sup>5\<^sup>0\<close> as \<^verbatim>\<open>2.7\<close>,
  \<open>3602879701896397 / 2\<^sup>5\<^sup>2\<close> as \<^verbatim>\<open>0.8\<close> and \<open>5404319552844595 / 2\<^sup>5\<^sup>1\<close> as \<^verbatim>\<open>2.4\<close>.
\<close>

theorem hull_of_collinear_points_counterexample:
  "3 \<le> card (set
       [(double_53 3 1, double_53 5 1),
        (double_53 6530219459687219 51, double_53 3039929748475085 50),
        (double_53 3602879701896397 52, double_53 5404319552844595 51)])
   \<and> all_collinear
       [(double_53 3 1, double_53 5 1),
        (double_53 6530219459687219 51, double_53 3039929748475085 50),
        (double_53 3602879701896397 52, double_53 5404319552844595 51)]
   \<and> convex_hull_xy binary64
       [(double_53 3 1, double_53 5 1),
        (double_53 6530219459687219 51, double_53 3039929748475085 50),
        (double_53 3602879701896397 52, double_53 5404319552844595 51)]
     = Inr [(double_53 3602879701896397 52, double_53 5404319552844595 51),
            (double_53 3 1, double_53 5 1),
            (double_53 6530219459687219 51, double_53 3039929748475085 50),
            (double_53 3 1, double_53 5 1)]
   \<and> length
       [(double_53 3602879701896397 52, double_53 5404319552844595 51),
        (double_53 3 1, double_53 5 1),
        (double_53 6530219459687219 51, double_53 3039929748475085 50),
        (double_53 3 1, double_53 5 1)] \<noteq> 2"
proof -
  let ?xs = "[(double_53 3 1, double_53 5 1),
        (double_53 6530219459687219 51, double_53 3039929748475085 50),
        (double_53 3602879701896397 52, double_53 5404319552844595 51)]"
  have c: "3 \<le> card (set ?xs)" by code_simp
  have l: "all_collinear ?xs" by code_simp
  have e: "convex_hull_xy binary64 ?xs
     = Inr [(double_53 3602879701896397 52, double_53 5404319552844595 51),
            (double_53 3 1, double_53 5 1),
            (double_53 6530219459687219 51, double_53 3039929748475085 50),
            (double_53 3 1, double_53 5 1)]" by code_simp
  from c l e show ?thesis by simp
qed

text \<open>
  Claim C2, amended: at least three distinct points that all lie on one line, and for
  which each cross product that the code computes is \<open>\<le> 0\<close> exactly when the exact
  cross product is, give exactly the two end points of the segment they span, the
  lexicographically least and greatest point; every point between them is pruned. In
  particular the hull of \<^verbatim>\<open>[(0,0), (1,0), (2,0)]\<close> is \<^verbatim>\<open>[(0,0), (2,0)]\<close>, computed on
  doubles or on integers.
\<close>

theorem hull_of_collinear_points:
  "(3 \<le> card (set xs) \<and> all_collinear xs \<and> sign_exact ops xs
      \<longrightarrow> convex_hull_xy ops xs = Inr [Min (set xs), Max (set xs)])
   \<and> convex_hull_xy binary64 [(0, 0), (1, 0), (2, 0)] = Inr [(0, 0), (2, 0)]
   \<and> convex_hull_xy exact ([(0, 0), (1, 0), (2, 0)] :: int point list) = Inr [(0, 0), (2, 0)]"
proof (intro conjI impI)
  assume "3 \<le> card (set xs) \<and> all_collinear xs \<and> sign_exact ops xs"
  then show "convex_hull_xy ops xs = Inr [Min (set xs), Max (set xs)]"
    by (simp add: convex_hull_xy_hull hull_collinear)
next
  show "convex_hull_xy binary64 [(0, 0), (1, 0), (2, 0)] = Inr [(0, 0), (2, 0)]"
    by (rule ex_collinear)
next
  show "convex_hull_xy exact ([(0, 0), (1, 0), (2, 0)] :: int point list) = Inr [(0, 0), (2, 0)]"
    by code_simp
qed

theorem hull_of_collinear_points_witness:
  "3 \<le> card (set ([(0, 0), (1, 0), (2, 0)] :: int point list))
   \<and> all_collinear ([(0, 0), (1, 0), (2, 0)] :: int point list)
   \<and> sign_exact binary64 [(0, 0), (1, 0), (2, 0)]
   \<and> convex_hull_xy binary64 [(0, 0), (1, 0), (2, 0)]
     = Inr [Min (set [(0, 0), (1, 0), (2, 0)]), Max (set [(0, 0), (1, 0), (2, 0)])]
   \<and> Min (set ([(0, 0), (1, 0), (2, 0)] :: int point list)) = (0, 0)
   \<and> Max (set ([(0, 0), (1, 0), (2, 0)] :: int point list)) = (2, 0)"
proof -
  let ?xs = "[(0, 0), (1, 0), (2, 0)] :: int point list"
  have c: "3 \<le> card (set ?xs)" by code_simp
  have l: "all_collinear ?xs" by code_simp
  have s: "sign_exact binary64 ?xs" by code_simp
  have mn: "Min (set ?xs) = (0, 0)" by code_simp
  have mx: "Max (set ?xs) = (2, 0)" by code_simp
  from hull_of_collinear_points [of ?xs binary64] c l s
  have "convex_hull_xy binary64 ?xs = Inr [Min (set ?xs), Max (set ?xs)]" by blast
  with c l s mn mx show ?thesis by blast
qed

section \<open>The hull of a hull\<close>

lemma orient_swap: "orient a c b = - orient a b c"
  by (simp add: orient_def algebra_simps)

lemma geo_collinear_next:
  assumes "a < b" "b < q" "orient a b q = 0" "b < c" "0 < orient a b c"
  shows "orient b c q < 0"
proof -
  have u: "lexpos (vec a b)" and w: "lexpos (vec b q)" and v: "lexpos (vec b c)"
    using assms(1,2,4) by (simp_all add: less_lexpos)
  from assms(3) have "det (vec a b) (vec b q) = 0" by (simp add: orient_mid)
  then have wu: "0 \<le> det (vec b q) (vec a b)" by (simp add: det_swap [of "vec b q"])
  from assms(5) have uv: "0 < det (vec a b) (vec b c)" by (simp add: orient_mid)
  from det_trans_less1 [OF w u v wu uv] have "0 < det (vec b q) (vec b c)" .
  then show ?thesis by (simp add: orient_det det_swap [of "vec b c"])
qed

lemma second_not_less:
  assumes so: "sorted_wrt (<) (a # b # r)" and tu: "left_turns (a # b # r)"
    and ed: "edges_left (a # b # r) P" and b': "b' \<in> P"
    and z: "orient a b b' = 0" and lt: "b < b'" and le: "b' \<le> last (a # b # r)"
  shows False
proof (cases r)
  case Nil
  with lt le show ?thesis by simp
next
  case (Cons c r')
  with so have ab: "a < b" and bc: "b < c" by simp_all
  from tu Cons have "0 < orient a b c" by simp
  from geo_collinear_next [OF ab lt z bc this] have "orient b c b' < 0" .
  moreover from ed Cons b' have "0 \<le> orient b c b'" by simp
  ultimately show ?thesis by simp
qed

lemma strict_sorted_last:
  fixes xs :: "'a::linorder list"
  assumes "sorted_wrt (<) xs" "x \<in> set xs"
  shows "x \<le> last xs"
proof -
  from assms(1) have "sorted xs" by (simp add: strict_sorted_iff)
  then show ?thesis using assms(2) by (rule sorted_last_greatest)
qed

text \<open>
  A chain from a first to a last point is determined by its being sorted, left-turning
  and below the vertices of any other such chain.
\<close>

lemma chain_unique:
  "sorted_wrt (<) L \<Longrightarrow> sorted_wrt (<) L' \<Longrightarrow> left_turns L \<Longrightarrow> left_turns L'
    \<Longrightarrow> edges_left L (set L') \<Longrightarrow> edges_left L' (set L)
    \<Longrightarrow> L \<noteq> [] \<Longrightarrow> L' \<noteq> [] \<Longrightarrow> hd L = hd L' \<Longrightarrow> last L = last L' \<Longrightarrow> L = L'"
proof (induction L arbitrary: L')
  case Nil
  then show ?case by simp
next
  case (Cons a r)
  from Cons.prems(8,9) obtain r' where L': "L' = a # r'" by (cases L') auto
  show ?case
  proof (cases r)
    case Nil
    have "r' = []"
    proof (rule ccontr)
      assume "r' \<noteq> []"
      then have "last r' \<in> set r'" by simp
      with Cons.prems(2) L' have "a < last r'" by simp
      with Cons.prems(10) Nil L' \<open>r' \<noteq> []\<close> show False by simp
    qed
    with Nil L' show ?thesis by simp
  next
    case (Cons b r2)
    note r = Cons
    have "r' \<noteq> []"
    proof
      assume "r' = []"
      with L' Cons.prems(10) r have "last (b # r2) = a" by simp
      moreover have "last (b # r2) \<in> set (b # r2)" by (rule last_in_set) simp
      ultimately have "a \<in> set (b # r2)" by simp
      with Cons.prems(1) r show False by auto
    qed
    then obtain b' r2' where r': "r' = b' # r2'" by (cases r') auto
    have L: "a # r = a # b # r2" using r by simp
    have L'': "L' = a # b' # r2'" using L' r' by simp
    from Cons.prems(5) have e1: "0 \<le> orient a b b'" unfolding L L'' by simp
    from Cons.prems(6) have e2: "0 \<le> orient a b' b" unfolding L L'' by simp
    from e1 e2 have z: "orient a b b' = 0" by (simp add: orient_swap [of a b' b])
    then have z': "orient a b' b = 0" by (simp add: orient_swap [of a b' b])
    have bb: "b = b'"
    proof (rule ccontr)
      assume "b \<noteq> b'"
      then consider "b < b'" | "b' < b" by (auto simp: neq_iff)
      then show False
      proof cases
        case 1
        have "b' \<le> last L'" using Cons.prems(2) unfolding L'' by (intro strict_sorted_last) simp_all
        then have "b' \<le> last (a # b # r2)" using Cons.prems(10) L by simp
        from second_not_less [OF _ _ _ _ z 1 this, of "set L'"] Cons.prems(1,3,5) L L''
        show False by simp
      next
        case 2
        have "b \<le> last (a # r)" using Cons.prems(1) unfolding L by (intro strict_sorted_last) simp_all
        then have "b \<le> last (a # b' # r2')" using Cons.prems(10) L'' by simp
        from second_not_less [OF _ _ _ _ z' 2 this, of "set (a # r)"] Cons.prems(2,4,6) L L''
        show False by simp
      qed
    qed
    have "r = r'"
    proof (rule Cons.IH)
      show "sorted_wrt (<) r" using Cons.prems(1) by simp
      show "sorted_wrt (<) r'" using Cons.prems(2) L' by simp
      show "left_turns r" using Cons.prems(3) by (rule left_turns_tl)
      show "left_turns r'" using Cons.prems(4) unfolding L' by (rule left_turns_tl)
      from Cons.prems(5) have "edges_left r (set L')" by (rule edges_left_tl)
      then show "edges_left r (set r')" by (rule edges_left_mono) (auto simp: L')
      from Cons.prems(6) have "edges_left r' (set (a # r))" unfolding L' by (rule edges_left_tl)
      then show "edges_left r' (set r)" by (rule edges_left_mono) auto
      show "r \<noteq> []" using r by simp
      show "r' \<noteq> []" using r' by simp
      show "hd r = hd r'" using r r' bb by simp
      show "last r = last r'" using Cons.prems(10) L' r r' by simp
    qed
    with L' show ?thesis by simp
  qed
qed

lemma chain_unique_upper:
  assumes "sorted_wrt (>) U" "sorted_wrt (>) U'" "left_turns U" "left_turns U'"
    and "edges_left U (set U')" "edges_left U' (set U)"
    and "U \<noteq> []" "U' \<noteq> []" "hd U = hd U'" "last U = last U'"
  shows "U = U'"
proof -
  have "map neg U = map neg U'"
  proof (rule chain_unique)
    show "sorted_wrt (<) (map neg U)" "sorted_wrt (<) (map neg U')"
      using assms(1,2) by simp_all
    show "left_turns (map neg U)" "left_turns (map neg U')" using assms(3,4) by simp_all
    show "edges_left (map neg U) (set (map neg U'))"
      using assms(5) edges_left_neg [of U "set U'"] by simp
    show "edges_left (map neg U') (set (map neg U))"
      using assms(6) edges_left_neg [of U' "set U"] by simp
    show "map neg U \<noteq> []" "map neg U' \<noteq> []" using assms(7,8) by simp_all
    show "hd (map neg U) = hd (map neg U')"
      using assms(9) unfolding hd_map [OF assms(7)] hd_map [OF assms(8)] by simp
    show "last (map neg U) = last (map neg U')"
      using assms(10) unfolding last_map [OF assms(7)] last_map [OF assms(8)] by simp
  qed
  then show ?thesis by (simp add: inj_map_eq_map inj_on_def)
qed

lemma Min_subset_eq:
  assumes "finite B" "A \<subseteq> B" "Min B \<in> A"
  shows "Min A = Min B"
proof (rule Min_eqI)
  show "finite A" using assms(1,2) by (rule rev_finite_subset)
  show "Min B \<in> A" by (rule assms(3))
  fix y assume "y \<in> A"
  with assms(2) have "y \<in> B" by auto
  with assms(1) show "Min B \<le> y" by simp
qed

lemma Max_subset_eq:
  assumes "finite B" "A \<subseteq> B" "Max B \<in> A"
  shows "Max A = Max B"
proof (rule Max_eqI)
  show "finite A" using assms(1,2) by (rule rev_finite_subset)
  show "Max B \<in> A" by (rule assms(3))
  fix y assume "y \<in> A"
  with assms(2) have "y \<in> B" by auto
  with assms(1) show "y \<le> Max B" by simp
qed

lemma len2_nonempty: "2 \<le> length xs \<Longrightarrow> xs \<noteq> []"
  by auto

lemma hd_in_butlast: "2 \<le> length xs \<Longrightarrow> hd xs \<in> set (butlast xs)"
  by (cases xs; cases "tl xs") auto

lemma set_butlast_last: "xs \<noteq> [] \<Longrightarrow> set xs = insert (last xs) (set (butlast xs))"
  by (metis append_butlast_last_id list.set(1,2) set_append Un_insert_right sup_bot.right_neutral)

lemma hull_idem:
  assumes big: "3 \<le> length (hull xs)"
  shows "hull (hull xs) = hull xs"
proof -
  let ?h = "hull xs"
  let ?pts = "sort (remdups xs)" and ?pts' = "sort (remdups ?h)"
  let ?L = "rev (scan [] ?pts)" and ?U = "rev (scan [] (rev ?pts))"
  let ?L' = "rev (scan [] ?pts')" and ?U' = "rev (scan [] (rev ?pts'))"
  from big have hne: "?h \<noteq> []" by auto
  then have len: "3 \<le> length ?pts" by (auto simp: hull_def Let_def split: if_splits)
  then have len2: "2 \<le> length ?pts" by simp
  from len have xne: "xs \<noteq> []" by auto
  have so: "sorted_wrt (<) ?pts" by (rule pts_sorted)
  have s: "set ?pts = set xs" by simp
  from len have h: "?h = butlast ?L @ butlast ?U" by (simp add: hull_def Let_def butlast_rev)
  note lf = lower_facts [OF so len2] and uf = upper_facts [OF so len2]
  \<comment> \<open>the second run\<close>
  have "length ?pts' = card (set ?h)" by (rule length_pts)
  also have "\<dots> = length ?h" using distinct_hull [of xs] by (rule distinct_card)
  finally have leq: "length ?pts' = length ?h" .
  have len': "3 \<le> length ?pts'" unfolding leq by (rule big)
  then have len2': "2 \<le> length ?pts'" by simp
  have so': "sorted_wrt (<) ?pts'" by (rule pts_sorted)
  have s': "set ?pts' = set ?h" by simp
  from len' have h': "hull ?h = butlast ?L' @ butlast ?U'"
    by (simp add: hull_def [of ?h] Let_def butlast_rev)
  note lf' = lower_facts [OF so' len2'] and uf' = upper_facts [OF so' len2']
  \<comment> \<open>both chains of the first run consist of hull vertices\<close>
  have Lne: "?L \<noteq> []" and Une: "?U \<noteq> []"
    using lf(4) uf(4) by (auto dest: len2_nonempty)
  have L'ne: "?L' \<noteq> []" and U'ne: "?U' \<noteq> []"
    using lf'(4) uf'(4) by (auto dest: len2_nonempty)
  have hdU: "hd ?U \<in> set ?h" using hd_in_butlast [OF uf(4)] h by simp
  have hdL: "hd ?L \<in> set ?h" using hd_in_butlast [OF lf(4)] h by simp
  have "set ?L = insert (last ?L) (set (butlast ?L))" using Lne by (rule set_butlast_last)
  also have "last ?L = hd ?U" using lf(3) uf(2) by simp
  finally have subL: "set ?L \<subseteq> set ?h" using hdU h by auto
  have "set ?U = insert (last ?U) (set (butlast ?U))" using Une by (rule set_butlast_last)
  also have "last ?U = hd ?L" using lf(2) uf(3) by simp
  finally have subU: "set ?U \<subseteq> set ?h" using hdL h by auto
  have hsub: "set ?h \<subseteq> set xs" by (rule set_hull)
  \<comment> \<open>both runs start and end at the same points\<close>
  have "hd ?pts = Min (set xs)" using xne by (rule hd_pts)
  with lf(2) hdL have "Min (set xs) \<in> set ?h" by simp
  with hsub have "Min (set ?h) = Min (set xs)" by (intro Min_subset_eq) simp_all
  with hd_pts [OF hne] hd_pts [OF xne] have hd_eq: "hd ?pts' = hd ?pts" by simp
  have "last ?pts = Max (set xs)" using xne by (rule last_pts)
  with uf(2) hdU have "Max (set xs) \<in> set ?h" by simp
  with hsub have "Max (set ?h) = Max (set xs)" by (intro Max_subset_eq) simp_all
  with last_pts [OF hne] last_pts [OF xne] have last_eq: "last ?pts' = last ?pts" by simp
  \<comment> \<open>each chain of the second run is the chain of the first\<close>
  from lf(1) have L: "sorted_wrt (<) ?L" "left_turns ?L" "edges_left ?L (set xs)"
    unfolding s by (simp_all add: lchain_def)
  from uf(1) have U: "sorted_wrt (>) ?U" "left_turns ?U" "edges_left ?U (set xs)"
    unfolding s by (simp_all add: uchain_def)
  from lf'(1) have L': "sorted_wrt (<) ?L'" "left_turns ?L'" "edges_left ?L' (set ?h)"
    "set ?L' \<subseteq> set ?h"
    unfolding s' by (simp_all add: lchain_def)
  from uf'(1) have U': "sorted_wrt (>) ?U'" "left_turns ?U'" "edges_left ?U' (set ?h)"
    "set ?U' \<subseteq> set ?h"
    unfolding s' by (simp_all add: uchain_def)
  have "?L' = ?L"
  proof (rule chain_unique)
    show "edges_left ?L' (set ?L)" using L'(3) subL by (rule edges_left_mono)
    show "edges_left ?L (set ?L')" using L(3) L'(4) hsub by (intro edges_left_mono [OF L(3)]) auto
    show "hd ?L' = hd ?L" using lf(2) lf'(2) hd_eq by simp
    show "last ?L' = last ?L" using lf(3) lf'(3) last_eq by simp
  qed (rule L' L L'ne Lne)+
  moreover have "?U' = ?U"
  proof (rule chain_unique_upper)
    show "edges_left ?U' (set ?U)" using U'(3) subU by (rule edges_left_mono)
    show "edges_left ?U (set ?U')" using U'(4) hsub by (intro edges_left_mono [OF U(3)]) auto
    show "hd ?U' = hd ?U" using uf(2) uf'(2) last_eq by simp
    show "last ?U' = last ?U" using uf(3) uf'(3) hd_eq by simp
  qed (rule U' U U'ne Une)+
  ultimately show ?thesis using h h' by simp
qed

subsection \<open>When the hull has two vertices\<close>

lemma orient_flip: "orient b a q = - orient a b q"
  by (simp add: orient_def algebra_simps)

lemma det_parallel:
  assumes "d \<noteq> (0, 0)" "det d u = 0" "det d w = 0"
  shows "det u w = 0"
proof -
  have "fst d * det u w = fst u * det d w - fst w * det d u"
    by (simp add: det_def algebra_simps)
  with assms(2,3) have 1: "fst d * det u w = 0" by simp
  have "snd d * det u w = snd u * det d w - snd w * det d u"
    by (simp add: det_def algebra_simps)
  with assms(2,3) have 2: "snd d * det u w = 0" by simp
  from assms(1) have "fst d \<noteq> 0 \<or> snd d \<noteq> 0" by (cases d) auto
  with 1 2 show ?thesis by auto
qed

lemma on_line_collinear:
  assumes "a \<noteq> b" "orient a b p = 0" "orient a b q = 0" "orient a b r = 0"
  shows "orient p q r = 0"
proof -
  let ?d = "vec a b"
  from assms(1) have d: "?d \<noteq> (0, 0)" by (cases a; cases b) (auto simp: vec_def)
  from assms(2-4) have z: "det ?d (vec a p) = 0" "det ?d (vec a q) = 0" "det ?d (vec a r) = 0"
    by (simp_all add: orient_det)
  note par = det_parallel [OF d]
  have "orient p q r = det (vec a q) (vec a r) - det (vec a q) (vec a p)
      - det (vec a p) (vec a r) + det (vec a p) (vec a p)"
    by (simp add: orient_def det_def vec_def algebra_simps)
  also have "\<dots> = 0"
    using par [OF z(2) z(3)] par [OF z(2) z(1)] par [OF z(1) z(3)] by simp
  finally show ?thesis .
qed

lemma hull_two_collinear:
  assumes "length (hull xs) = 2"
  shows "3 \<le> card (set xs) \<and> all_collinear xs"
proof -
  from assms have ne: "hull xs \<noteq> []" by auto
  then have "3 \<le> length (sort (remdups xs))"
    by (auto simp: hull_def Let_def split: if_splits)
  then have card: "3 \<le> card (set xs)" by (simp only: length_pts)
  from ne obtain L U where h: "hull xs = butlast L @ butlast U"
    and L: "lchain (set xs) L" and U: "uchain (set xs) U"
    and ends: "hd L = last U" "last L = hd U"
    and len: "2 \<le> length L" "2 \<le> length U"
    by (rule hull_struct)
  from assms h len have "length L = 2" "length U = 2" by simp_all
  then obtain a b c d where Leq: "L = [a, b]" and Ueq: "U = [c, d]"
    by (auto simp: length_Suc_conv numeral_2_eq_2)
  with ends have Ueq': "U = [b, a]" by simp
  from L Leq have ab: "a < b" and eL: "\<forall>q\<in>set xs. 0 \<le> orient a b q"
    by (simp_all add: lchain_def)
  from U Ueq' have "\<forall>q\<in>set xs. 0 \<le> orient b a q" by (simp add: uchain_def)
  then have "\<forall>q\<in>set xs. orient a b q \<le> 0" by (simp add: orient_flip [of b a])
  with eL have z: "\<forall>q\<in>set xs. orient a b q = 0" by (meson order_antisym)
  from ab have "a \<noteq> b" by auto
  with z have "all_collinear xs"
    unfolding all_collinear_def by (auto intro: on_line_collinear)
  with card show ?thesis by simp
qed

lemma hull_two_iff:
  "length (hull xs) = 2 \<longleftrightarrow> 3 \<le> card (set xs) \<and> all_collinear xs"
proof
  assume "length (hull xs) = 2"
  then show "3 \<le> card (set xs) \<and> all_collinear xs" by (rule hull_two_collinear)
next
  assume "3 \<le> card (set xs) \<and> all_collinear xs"
  then have "hull xs = [Min (set xs), Max (set xs)]" by (simp add: hull_collinear)
  then show "length (hull xs) = 2" by simp
qed

text \<open>
  Claim C3, as stated: the hull of the hull's output is that output again. Two inputs
  refute it. Three points on a line, \<^verbatim>\<open>[(0, 0), (1, 0), (2, 0)]\<close>, have the two end points
  as their hull, and two points have the empty hull. The doubles
  \<^verbatim>\<open>[(-2.8, -0.9), (1.5, 3.4), (2.6, 4.5), (3.9, 5.8)]\<close> have the hull
  \<^verbatim>\<open>[(-2.8, -0.9), (2.6, 4.5), (3.9, 5.8)]\<close>, whose hull is
  \<^verbatim>\<open>[(-2.8, -0.9), (2.6, 4.5), (3.9, 5.8), (2.6, 4.5)]\<close>: among the three vertices alone a
  cross product rounds to a positive double. Python shows the doubles
  \<open>-3152519739159347 / 2\<^sup>5\<^sup>0\<close> as \<^verbatim>\<open>-2.8\<close>, \<open>-8106479329266893 / 2\<^sup>5\<^sup>3\<close> as \<^verbatim>\<open>-0.9\<close>,
  \<open>7656119366529843 / 2\<^sup>5\<^sup>1\<close> as \<^verbatim>\<open>3.4\<close>, \<open>5854679515581645 / 2\<^sup>5\<^sup>1\<close> as \<^verbatim>\<open>2.6\<close>,
  \<open>8782019273372467 / 2\<^sup>5\<^sup>1\<close> as \<^verbatim>\<open>3.9\<close> and \<open>6530219459687219 / 2\<^sup>5\<^sup>0\<close> as \<^verbatim>\<open>5.8\<close>.
\<close>

theorem hull_idempotent_counterexample:
  "convex_hull_xy binary64 [(0, 0), (1, 0), (2, 0)] = Inr [(0, 0), (2, 0)]
   \<and> convex_hull_xy binary64 [(0, 0), (2, 0)] \<noteq> Inr [(0, 0), (2, 0)]
   \<and> convex_hull_xy binary64
        [(double_53 (- 3152519739159347) 50, double_53 (- 8106479329266893) 53),
         (double_53 3 1, double_53 7656119366529843 51),
         (double_53 5854679515581645 51, double_53 9 1),
         (double_53 8782019273372467 51, double_53 6530219459687219 50)]
      = Inr [(double_53 (- 3152519739159347) 50, double_53 (- 8106479329266893) 53),
             (double_53 5854679515581645 51, double_53 9 1),
             (double_53 8782019273372467 51, double_53 6530219459687219 50)]
   \<and> convex_hull_xy binary64
        [(double_53 (- 3152519739159347) 50, double_53 (- 8106479329266893) 53),
         (double_53 5854679515581645 51, double_53 9 1),
         (double_53 8782019273372467 51, double_53 6530219459687219 50)]
      \<noteq> Inr [(double_53 (- 3152519739159347) 50, double_53 (- 8106479329266893) 53),
             (double_53 5854679515581645 51, double_53 9 1),
             (double_53 8782019273372467 51, double_53 6530219459687219 50)]"
proof -
  have 1: "convex_hull_xy binary64 [(0, 0), (2, 0)] = Inr []" by code_simp
  have 2: "convex_hull_xy binary64
        [(double_53 (- 3152519739159347) 50, double_53 (- 8106479329266893) 53),
         (double_53 3 1, double_53 7656119366529843 51),
         (double_53 5854679515581645 51, double_53 9 1),
         (double_53 8782019273372467 51, double_53 6530219459687219 50)]
      = Inr [(double_53 (- 3152519739159347) 50, double_53 (- 8106479329266893) 53),
             (double_53 5854679515581645 51, double_53 9 1),
             (double_53 8782019273372467 51, double_53 6530219459687219 50)]"
    by code_simp
  have 3: "convex_hull_xy binary64
        [(double_53 (- 3152519739159347) 50, double_53 (- 8106479329266893) 53),
         (double_53 5854679515581645 51, double_53 9 1),
         (double_53 8782019273372467 51, double_53 6530219459687219 50)]
      = Inr [(double_53 (- 3152519739159347) 50, double_53 (- 8106479329266893) 53),
             (double_53 5854679515581645 51, double_53 9 1),
             (double_53 8782019273372467 51, double_53 6530219459687219 50),
             (double_53 5854679515581645 51, double_53 9 1)]"
    by code_simp
  from ex_collinear 1 2 3 show ?thesis by simp
qed

text \<open>
  Claim C3, amended: on every input on which each cross product that the code computes
  for three input points is \<open>\<le> 0\<close> exactly when the exact cross product is, an output that
  does not consist of exactly two vertices is its own hull. The output consists of
  exactly two vertices exactly when the input holds at least three distinct points that
  all lie on one line, and then the hull of the output is empty.
\<close>

theorem hull_idempotent:
  "convex_hull_xy ops xs = Inr h \<Longrightarrow> sign_exact ops xs \<Longrightarrow>
     (length h \<noteq> 2 \<longrightarrow> convex_hull_xy ops h = Inr h)
     \<and> (length h = 2 \<longleftrightarrow> 3 \<le> card (set xs) \<and> all_collinear xs)
     \<and> (length h = 2 \<longrightarrow> convex_hull_xy ops h = Inr [])"
proof -
  assume "convex_hull_xy ops xs = Inr h" and se: "sign_exact ops xs"
  then have h: "h = hull xs" by (simp add: convex_hull_xy_hull)
  have "set h \<subseteq> set xs" unfolding h by (rule set_hull)
  with se have "sign_exact ops h" by (rule sign_exact_subset)
  then have hh: "convex_hull_xy ops h = Inr (hull h)" by (rule convex_hull_xy_hull)
  have "hull h = h" if n2: "length h \<noteq> 2"
  proof (cases "h = []")
    case True
    then show ?thesis by (simp add: hull_empty_small)
  next
    case False
    with n2 h length_hull_not_one [of xs] have "3 \<le> length (hull xs)"
      by (cases "hull xs"; cases "tl (hull xs)"; cases "tl (tl (hull xs))") auto
    then have "hull (hull xs) = hull xs" by (rule hull_idem)
    with h show ?thesis by simp
  qed
  moreover have "length h = 2 \<longleftrightarrow> 3 \<le> card (set xs) \<and> all_collinear xs"
    unfolding h by (rule hull_two_iff)
  moreover have "hull h = []" if "length h = 2"
  proof -
    have "card (set h) \<le> length h" by (rule card_length)
    with that have "card (set h) < 3" by simp
    then show ?thesis by (rule hull_empty_small)
  qed
  ultimately show ?thesis using hh by simp
qed

theorem hull_idempotent_witness:
  "convex_hull_xy binary64 [(0, 0), (4, 0), (4, 4), (0, 4), (2, 2)]
     = Inr [(0, 0), (4, 0), (4, 4), (0, 4)]
   \<and> sign_exact binary64 [(0, 0), (4, 0), (4, 4), (0, 4), (2, 2)]
   \<and> length ([(0, 0), (4, 0), (4, 4), (0, 4)] :: int point list) \<noteq> 2
   \<and> convex_hull_xy binary64 [(0, 0), (4, 0), (4, 4), (0, 4)]
     = Inr [(0, 0), (4, 0), (4, 4), (0, 4)]
   \<and> convex_hull_xy binary64 [(0, 0), (1, 0), (2, 0)] = Inr [(0, 0), (2, 0)]
   \<and> sign_exact binary64 [(0, 0), (1, 0), (2, 0)]
   \<and> length ([(0, 0), (2, 0)] :: int point list) = 2
   \<and> 3 \<le> card (set ([(0, 0), (1, 0), (2, 0)] :: int point list))
   \<and> all_collinear ([(0, 0), (1, 0), (2, 0)] :: int point list)
   \<and> convex_hull_xy binary64 [(0, 0), (2, 0)] = Inr []"
proof -
  have n: "length ([(0, 0), (4, 0), (4, 4), (0, 4)] :: int point list) \<noteq> 2" by simp
  from hull_idempotent [OF ex_square ex_square_exact] n
  have a: "convex_hull_xy binary64 [(0, 0), (4, 0), (4, 4), (0, 4)]
     = Inr [(0, 0), (4, 0), (4, 4), (0, 4)]" by blast
  have s: "sign_exact binary64 [(0, 0), (1, 0), (2, 0)]" by code_simp
  have l: "length ([(0, 0), (2, 0)] :: int point list) = 2" by simp
  from hull_idempotent [OF ex_collinear s] l
  have b: "3 \<le> card (set ([(0, 0), (1, 0), (2, 0)] :: int point list))
      \<and> all_collinear ([(0, 0), (1, 0), (2, 0)] :: int point list)"
    and c: "convex_hull_xy binary64 [(0, 0), (2, 0)] = Inr []" by blast+
  from ex_square ex_square_exact n a ex_collinear s l b c show ?thesis by blast
qed

section \<open>Inputs on which the arithmetic of doubles is exact\<close>

text \<open>
  Doubles that are multiples of one unit by integers below \<open>2\<^sup>2\<^sup>5\<close> in absolute value
  have differences below \<open>2\<^sup>2\<^sup>6\<close>, whose products are below \<open>2\<^sup>5\<^sup>2\<close>: no operation of
  the cross product rounds, and the hypothesis of the amended claims holds.
\<close>

declare bit_length.simps [simp del]

lemma bit_length_bound: "0 \<le> n \<Longrightarrow> n < 2 ^ k \<Longrightarrow> bit_length n \<le> int k"
proof (induction k arbitrary: n)
  case 0
  then have "n = 0" by simp
  then show ?case by (simp add: bit_length.simps)
next
  case (Suc k)
  show ?case
  proof (cases "n \<le> 0")
    case True
    then show ?thesis by (simp add: bit_length.simps)
  next
    case False
    from Suc.prems have "0 \<le> n div 2" "n div 2 < 2 ^ k" by simp_all
    then have "bit_length (n div 2) \<le> int k" by (rule Suc.IH)
    with False show ?thesis by (subst bit_length.simps) simp
  qed
qed

lemma round53_small: "\<bar>n\<bar> < 2 ^ 53 \<Longrightarrow> round53 n = n"
  using bit_length_bound [of "\<bar>n\<bar>" 53] by (simp add: round53_def)

lemma abs_diff_small:
  fixes a b :: int
  assumes "\<bar>a\<bar> < 2 ^ 25" "\<bar>b\<bar> < 2 ^ 25"
  shows "\<bar>a - b\<bar> < 2 ^ 26"
  using assms by simp

lemma abs_mult_small:
  fixes u v :: int
  assumes "\<bar>u\<bar> < 2 ^ 26" "\<bar>v\<bar> < 2 ^ 26"
  shows "\<bar>u * v\<bar> < 2 ^ 52"
proof -
  have "\<bar>u\<bar> * \<bar>v\<bar> < 2 ^ 26 * 2 ^ 26"
    using assms by (intro mult_strict_mono') simp_all
  then show ?thesis by (simp add: abs_mult)
qed

lemma cross_binary64_small:
  assumes "\<bar>fst og\<bar> < 2 ^ 25" "\<bar>snd og\<bar> < 2 ^ 25" "\<bar>fst a\<bar> < 2 ^ 25" "\<bar>snd a\<bar> < 2 ^ 25"
    "\<bar>fst b\<bar> < 2 ^ 25" "\<bar>snd b\<bar> < 2 ^ 25"
  shows "cross binary64 og a b = orient og a b"
proof -
  have d: "\<bar>fst a - fst og\<bar> < 2 ^ 26" "\<bar>snd b - snd og\<bar> < 2 ^ 26"
    "\<bar>snd a - snd og\<bar> < 2 ^ 26" "\<bar>fst b - fst og\<bar> < 2 ^ 26"
    using assms by (simp_all only: abs_diff_small)
  then have d53: "\<bar>fst a - fst og\<bar> < 2 ^ 53" "\<bar>snd b - snd og\<bar> < 2 ^ 53"
    "\<bar>snd a - snd og\<bar> < 2 ^ 53" "\<bar>fst b - fst og\<bar> < 2 ^ 53"
    by simp_all
  have m: "\<bar>(fst a - fst og) * (snd b - snd og)\<bar> < 2 ^ 52"
    "\<bar>(snd a - snd og) * (fst b - fst og)\<bar> < 2 ^ 52"
    using d by (simp_all only: abs_mult_small)
  then have m53: "\<bar>(fst a - fst og) * (snd b - snd og)\<bar> < 2 ^ 53"
    "\<bar>(snd a - snd og) * (fst b - fst og)\<bar> < 2 ^ 53"
    by simp_all
  from m have t53: "\<bar>(fst a - fst og) * (snd b - snd og) - (snd a - snd og) * (fst b - fst og)\<bar> < 2 ^ 53"
    by simp
  note r = round53_small [OF d53(1)] round53_small [OF d53(2)] round53_small [OF d53(3)]
    round53_small [OF d53(4)] round53_small [OF m53(1)] round53_small [OF m53(2)]
    round53_small [OF t53]
  show ?thesis
    unfolding cross_def binary64_def orient_def number_ops.select_convs r ..
qed

lemma sign_exact_small:
  assumes "\<forall>p\<in>set xs. \<bar>fst p\<bar> < 2 ^ 25 \<and> \<bar>snd p\<bar> < 2 ^ 25"
  shows "sign_exact binary64 xs"
  unfolding sign_exact_def using assms by (auto simp: cross_binary64_small)

section \<open>The tag summary of \<^verbatim>\<open>utils/tag.py\<close>\<close>

text \<open>
  The table is a list of rows. A row has a cluster identifier and a cell of tags; the
  cell holds a list of tags or some other value (a missing value, say), of which only
  the truth value matters to the code.
\<close>

datatype cell = TagList "string list" | NotAList bool

record row =
  cluster :: int
  tags :: cell

fun truthy :: "cell \<Rightarrow> bool" where
  "truthy (TagList l) \<longleftrightarrow> l \<noteq> []"
| "truthy (NotAList b) \<longleftrightarrow> b"

fun isinstance_list :: "cell \<Rightarrow> bool" where
  "isinstance_list (TagList l) \<longleftrightarrow> True"
| "isinstance_list (NotAList b) \<longleftrightarrow> False"

fun elements :: "cell \<Rightarrow> string list" where
  "elements (TagList l) = l"
| "elements (NotAList b) = []"

text \<open>
  \<^verbatim>\<open>Series.unique()\<close> of pandas returns the distinct values in order of first appearance.
\<close>

primrec unique :: "'a list \<Rightarrow> 'a list" where
  "unique [] = []"
| "unique (x # xs) = x # filter (\<lambda>y. y \<noteq> x) (unique xs)"

text \<open>
  \<^verbatim>\<open>collections.Counter\<close> counts the elements of a list in a dictionary, which keeps
  its keys in insertion order: a new element is added at the end with count one, a known
  element has its count raised in place.
\<close>

fun count_elem :: "'a \<Rightarrow> ('a \<times> nat) list \<Rightarrow> ('a \<times> nat) list" where
  "count_elem x [] = [(x, 1)]"
| "count_elem x ((k, v) # c) = (if k = x then (k, v + 1) # c else (k, v) # count_elem x c)"

definition counter :: "'a list \<Rightarrow> ('a \<times> nat) list" where
  "counter xs = foldl (\<lambda>c x. count_elem x c) [] xs"

text \<open>
  \<^verbatim>\<open>Counter.most_common(n)\<close> is \<^verbatim>\<open>heapq.nlargest(n, items, key=count)\<close>, which the
  library documents as \<^verbatim>\<open>sorted(items, key=count, reverse=True)[:n]\<close>: a stable sort by
  decreasing count, cut after \<open>n\<close> items; for \<open>n \<le> 0\<close> the result is empty.
\<close>

definition most_common :: "int \<Rightarrow> ('a \<times> nat) list \<Rightarrow> ('a \<times> nat) list" where
  "most_common n c = take (nat n) (sort_key (\<lambda>(t, k). - int k) c)"

text \<open>A dictionary that keeps insertion order; \<^verbatim>\<open>d[k] = v\<close>.\<close>

fun dict_set :: "('k \<times> 'v) list \<Rightarrow> 'k \<Rightarrow> 'v \<Rightarrow> ('k \<times> 'v) list" where
  "dict_set [] k v = [(k, v)]"
| "dict_set ((k', v') # d) k v = (if k' = k then (k, v) # d else (k', v') # dict_set d k v)"

text \<open>The inner loop over the rows of one cluster, which collects the tags that are kept.\<close>

fun collect_tags :: "cell list \<Rightarrow> string set \<Rightarrow> string list \<Rightarrow> string list" where
  "collect_tags [] tags_to_delete all_cluster_tags = all_cluster_tags"
| "collect_tags (tags_list # rest) tags_to_delete all_cluster_tags =
     (if truthy tags_list \<and> isinstance_list tags_list
      then collect_tags rest tags_to_delete
             (all_cluster_tags @ [tag \<leftarrow> elements tags_list. tag \<notin> tags_to_delete])
      else collect_tags rest tags_to_delete all_cluster_tags)"

definition cluster_tags :: "row list \<Rightarrow> string set \<Rightarrow> int \<Rightarrow> string list" where
  "cluster_tags sample tags_to_delete cluster_id =
     collect_tags (map tags [r \<leftarrow> sample. cluster r = cluster_id]) tags_to_delete []"

text \<open>The outer loop over the cluster identifiers, which skips the noise cluster \<open>-1\<close>.\<close>

fun top_tags_loop ::
  "int list \<Rightarrow> row list \<Rightarrow> string set \<Rightarrow> int \<Rightarrow> (int \<times> string list) list
    \<Rightarrow> (int \<times> string list) list" where
  "top_tags_loop [] sample tags_to_delete n_top_tags cluster_top_tags = cluster_top_tags"
| "top_tags_loop (cluster_id # ids) sample tags_to_delete n_top_tags cluster_top_tags =
     (if cluster_id = - 1 then top_tags_loop ids sample tags_to_delete n_top_tags cluster_top_tags
      else
        let all_cluster_tags = cluster_tags sample tags_to_delete cluster_id in
        if all_cluster_tags \<noteq> [] then
          top_tags_loop ids sample tags_to_delete n_top_tags
            (dict_set cluster_top_tags cluster_id
               (map fst (most_common n_top_tags (counter all_cluster_tags))))
        else top_tags_loop ids sample tags_to_delete n_top_tags
            (dict_set cluster_top_tags cluster_id []))"

definition get_cluster_top_tags ::
  "row list \<Rightarrow> string set \<Rightarrow> int \<Rightarrow> (int \<times> string list) list" where
  "get_cluster_top_tags sample tags_to_delete n_top_tags =
     top_tags_loop (unique (map cluster sample)) sample tags_to_delete n_top_tags []"

text \<open>
  What the summary is to return for one cluster: \<open>s\<close> ranks before \<open>t\<close> when it is more
  frequent, or as frequent and met first; the top tags are at most \<open>n\<close> distinct tags of
  the cluster, in rank order, each ranking before every tag that is left out.
\<close>

definition first_pos :: "'a list \<Rightarrow> 'a \<Rightarrow> nat" where
  "first_pos ts t = length (takeWhile (\<lambda>x. x \<noteq> t) ts)"

definition ranks_before :: "'a list \<Rightarrow> 'a \<Rightarrow> 'a \<Rightarrow> bool" where
  "ranks_before ts s t \<longleftrightarrow>
     count_list ts t < count_list ts s
     \<or> (count_list ts s = count_list ts t \<and> first_pos ts s < first_pos ts t)"

definition top_tags_spec :: "'a list \<Rightarrow> int \<Rightarrow> 'a list \<Rightarrow> bool" where
  "top_tags_spec ts n r \<longleftrightarrow>
     distinct r \<and> set r \<subseteq> set ts \<and> length r = min (nat n) (card (set ts))
     \<and> sorted_wrt (ranks_before ts) r
     \<and> (\<forall>s\<in>set r. \<forall>t\<in>set ts - set r. ranks_before ts s t)"

subsection \<open>The library functions\<close>

lemma set_unique [simp]: "set (unique xs) = set xs"
  by (induction xs) auto

lemma distinct_unique [simp]: "distinct (unique xs)"
  by (induction xs) auto

lemma unique_snoc:
  "unique (xs @ [x]) = (if x \<in> set xs then unique xs else unique xs @ [x])"
proof (induction xs)
  case Nil
  show ?case by simp
next
  case (Cons a xs)
  then show ?case by (auto simp: filter_id_conv)
qed

lemma first_pos_Cons:
  "first_pos (x # xs) t = (if t = x then 0 else Suc (first_pos xs t))"
  by (simp add: first_pos_def)

lemma unique_first_pos: "sorted_wrt (\<lambda>s t. first_pos xs s < first_pos xs t) (unique xs)"
proof (induction xs)
  case Nil
  show ?case by simp
next
  case (Cons x xs)
  let ?r = "filter (\<lambda>y. y \<noteq> x) (unique xs)"
  have "sorted_wrt (\<lambda>s t. first_pos xs s < first_pos xs t) ?r"
    using Cons by (rule sorted_wrt_filter)
  then have "sorted_wrt (\<lambda>s t. first_pos (x # xs) s < first_pos (x # xs) t) ?r"
    by (rule sorted_wrt_mono_rel [rotated]) (simp add: first_pos_Cons)
  moreover have "\<forall>t\<in>set ?r. first_pos (x # xs) x < first_pos (x # xs) t"
    by (simp add: first_pos_Cons)
  ultimately show ?case by simp
qed

lemma count_elem_map:
  assumes "distinct us"
  shows "count_elem x (map (\<lambda>t. (t, f t)) us) =
     (if x \<in> set us then map (\<lambda>t. (t, if t = x then f t + 1 else f t)) us
      else map (\<lambda>t. (t, f t)) us @ [(x, 1)])"
  using assms by (induction us) auto

lemma counter_snoc: "counter (xs @ [x]) = count_elem x (counter xs)"
  by (simp add: counter_def)

lemma counter_eq: "counter xs = map (\<lambda>t. (t, count_list xs t)) (unique xs)"
proof (induction xs rule: rev_induct)
  case Nil
  show ?case by (simp add: counter_def)
next
  case (snoc x xs)
  have "counter (xs @ [x]) = count_elem x (map (\<lambda>t. (t, count_list xs t)) (unique xs))"
    by (simp add: counter_snoc snoc)
  also have "\<dots> = map (\<lambda>t. (t, count_list (xs @ [x]) t)) (unique (xs @ [x]))"
    by (auto simp: count_elem_map unique_snoc)
  finally show ?case .
qed

lemma insort_key_map:
  "insort_key f (g x) (map g xs) = map g (insort_key (\<lambda>y. f (g y)) x xs)"
  by (induction xs) auto

lemma sort_key_map: "sort_key f (map g xs) = map g (sort_key (\<lambda>y. f (g y)) xs)"
  by (induction xs) (simp_all add: insort_key_map)

lemma most_common_counter:
  "map fst (most_common n (counter ts))
    = take (nat n) (sort_key (\<lambda>t. - int (count_list ts t)) (unique ts))"
  by (simp add: most_common_def counter_eq sort_key_map take_map o_def)

text \<open>A sort that is stable orders equal keys as the input does.\<close>

lemma stable_sorted_wrt:
  fixes f :: "'a \<Rightarrow> 'k::linorder"
  assumes "sorted (map f ys)" "\<And>k. sorted_wrt Q (filter (\<lambda>y. f y = k) ys)"
  shows "sorted_wrt (\<lambda>a b. f a < f b \<or> (f a = f b \<and> Q a b)) ys"
  using assms
proof (induction ys)
  case Nil
  show ?case by simp
next
  case (Cons y ys)
  have tail: "sorted_wrt (\<lambda>a b. f a < f b \<or> (f a = f b \<and> Q a b)) ys"
  proof (rule Cons.IH)
    show "sorted (map f ys)" using Cons.prems(1) by simp
    fix k
    from Cons.prems(2) [of k] show "sorted_wrt Q (filter (\<lambda>y. f y = k) ys)"
      by (cases "f y = k") simp_all
  qed
  have "f y < f b \<or> (f y = f b \<and> Q y b)" if b: "b \<in> set ys" for b
  proof (cases "f y = f b")
    case True
    from Cons.prems(2) [of "f y"] b True show ?thesis by simp
  next
    case False
    moreover from Cons.prems(1) b have "f y \<le> f b" by simp
    ultimately show ?thesis by simp
  qed
  with tail show ?case by simp
qed

lemma top_tags_spec_most_common:
  "top_tags_spec ts n (map fst (most_common n (counter ts)))"
proof -
  let ?h = "\<lambda>t. - int (count_list ts t)"
  let ?Q = "\<lambda>s t. first_pos ts s < first_pos ts t"
  let ?vs = "sort_key ?h (unique ts)"
  let ?r = "take (nat n) ?vs"
  have r: "map fst (most_common n (counter ts)) = ?r" by (rule most_common_counter)
  have dv: "distinct ?vs" by simp
  have sv: "set ?vs = set ts" by simp
  have "length ?vs = length (unique ts)" by simp
  also have "\<dots> = card (set (unique ts))" by (rule distinct_card [symmetric]) simp
  finally have lv: "length ?vs = card (set ts)" by simp
  have "sorted_wrt (\<lambda>a b. ?h a < ?h b \<or> (?h a = ?h b \<and> ?Q a b)) ?vs"
  proof (rule stable_sorted_wrt)
    show "sorted (map ?h ?vs)" by (rule sorted_sort_key)
    fix k
    have "sorted_wrt ?Q (filter (\<lambda>y. ?h y = k) (unique ts))"
      using unique_first_pos by (rule sorted_wrt_filter)
    then show "sorted_wrt ?Q (filter (\<lambda>y. ?h y = k) ?vs)" by (simp only: sort_key_stable)
  qed
  then have "sorted_wrt (ranks_before ts) ?vs"
    by (rule sorted_wrt_mono_rel [rotated]) (auto simp: ranks_before_def)
  then have so: "sorted_wrt (ranks_before ts) (?r @ drop (nat n) ?vs)" by simp
  have "distinct ?r" using dv by simp
  moreover have "set ?r \<subseteq> set ts" using sv set_take_subset [of "nat n" ?vs] by auto
  moreover have "length ?r = min (nat n) (card (set ts))" using lv by (simp add: min.commute)
  moreover from so have "sorted_wrt (ranks_before ts) ?r" by (simp only: sorted_wrt_append)
  moreover have "\<forall>s\<in>set ?r. \<forall>t\<in>set ts - set ?r. ranks_before ts s t"
  proof (intro ballI)
    fix s t assume s: "s \<in> set ?r" and t: "t \<in> set ts - set ?r"
    have "set (?r @ drop (nat n) ?vs) = set ?vs" by (simp only: append_take_drop_id)
    then have "set ?vs = set ?r \<union> set (drop (nat n) ?vs)" by (simp only: set_append)
    with t sv have t': "t \<in> set (drop (nat n) ?vs)" by blast
    from so have "\<forall>x\<in>set ?r. \<forall>y\<in>set (drop (nat n) ?vs). ranks_before ts x y"
      unfolding sorted_wrt_append by (elim conjE)
    with s t' show "ranks_before ts s t" by blast
  qed
  ultimately show ?thesis unfolding r top_tags_spec_def by (intro conjI)
qed

subsection \<open>The two loops\<close>

lemma collect_tags_eq:
  "collect_tags cs del acc = acc @ [t \<leftarrow> concat (map elements cs). t \<notin> del]"
proof (induction cs arbitrary: acc)
  case Nil
  show ?case by simp
next
  case (Cons c cs)
  show ?case by (cases c) (simp_all add: Cons)
qed

lemma cluster_tags_eq:
  "cluster_tags sample del cid
    = [t \<leftarrow> concat (map (\<lambda>r. elements (tags r)) [r \<leftarrow> sample. cluster r = cid]). t \<notin> del]"
  by (simp add: cluster_tags_def collect_tags_eq o_def)

lemma dict_set_new: "k \<notin> fst ` set d \<Longrightarrow> dict_set d k v = d @ [(k, v)]"
  by (induction d) auto

lemma most_common_Nil: "map fst (most_common n (counter [])) = []"
  by (simp add: most_common_def counter_def)

lemma top_tags_loop_eq:
  "distinct ids \<Longrightarrow> set ids \<inter> fst ` set d = {} \<Longrightarrow>
   top_tags_loop ids sample del n d
    = d @ map (\<lambda>cid. (cid, map fst (most_common n (counter (cluster_tags sample del cid)))))
            [c \<leftarrow> ids. c \<noteq> - 1]"
proof (induction ids arbitrary: d)
  case Nil
  show ?case by simp
next
  case (Cons c ids)
  let ?top = "map fst (most_common n (counter (cluster_tags sample del c)))"
  from Cons.prems have d: "distinct ids" and new: "c \<notin> fst ` set d"
    and rest: "set ids \<inter> fst ` set d = {}" and c: "c \<notin> set ids"
    by auto
  show ?case
  proof (cases "c = - 1")
    case True
    with Cons.IH [OF d rest] show ?thesis by simp
  next
    case False
    have step: "top_tags_loop (c # ids) sample del n d
        = top_tags_loop ids sample del n (dict_set d c ?top)"
      using False by (simp add: Let_def most_common_Nil)
    have "set ids \<inter> fst ` set (d @ [(c, ?top)]) = {}" using rest c by auto
    from Cons.IH [OF d this] have
      "top_tags_loop ids sample del n (d @ [(c, ?top)])
        = (d @ [(c, ?top)])
          @ map (\<lambda>cid. (cid, map fst (most_common n (counter (cluster_tags sample del cid)))))
              [c \<leftarrow> ids. c \<noteq> - 1]" .
    with step False show ?thesis by (simp add: dict_set_new [OF new])
  qed
qed

lemma get_cluster_top_tags_eq:
  "get_cluster_top_tags sample del n
    = map (\<lambda>cid. (cid, map fst (most_common n (counter (cluster_tags sample del cid)))))
        [c \<leftarrow> unique (map cluster sample). c \<noteq> - 1]"
  by (simp add: get_cluster_top_tags_def top_tags_loop_eq)

text \<open>
  Claim C7. The summary has one entry for each cluster identifier of the table other than
  \<open>-1\<close>, in order of first appearance. The entry of a cluster holds the top tags of the
  tags of its rows that are not excluded: at most \<open>N\<close> distinct tags, by decreasing
  frequency, ties in the order in which the tags are first met, and every tag left out
  ranks after every tag kept.
\<close>

theorem top_tags_of_each_cluster:
  "map fst (get_cluster_top_tags sample del n) = [c \<leftarrow> unique (map cluster sample). c \<noteq> - 1]
   \<and> distinct (map fst (get_cluster_top_tags sample del n))
   \<and> set (map fst (get_cluster_top_tags sample del n)) = cluster ` set sample - {- 1}
   \<and> (\<forall>(cid, top) \<in> set (get_cluster_top_tags sample del n).
        top_tags_spec
          [t \<leftarrow> concat (map (\<lambda>r. elements (tags r)) [r \<leftarrow> sample. cluster r = cid]). t \<notin> del]
          n top)"
proof (intro conjI)
  show keys: "map fst (get_cluster_top_tags sample del n)
      = [c \<leftarrow> unique (map cluster sample). c \<noteq> - 1]"
    by (simp add: get_cluster_top_tags_eq o_def)
  show "distinct (map fst (get_cluster_top_tags sample del n))"
    unfolding keys by simp
  show "set (map fst (get_cluster_top_tags sample del n)) = cluster ` set sample - {- 1}"
    unfolding keys by auto
  show "\<forall>(cid, top) \<in> set (get_cluster_top_tags sample del n).
        top_tags_spec
          [t \<leftarrow> concat (map (\<lambda>r. elements (tags r)) [r \<leftarrow> sample. cluster r = cid]). t \<notin> del]
          n top"
    unfolding get_cluster_top_tags_eq
    using top_tags_spec_most_common [of "cluster_tags sample del cid" n for cid]
    by (auto simp: cluster_tags_eq)
qed

theorem top_tags_of_each_cluster_witness:
  "get_cluster_top_tags
     [\<lparr>cluster = 0, tags = TagList [''a'', ''b'', ''a'']\<rparr>,
      \<lparr>cluster = 1, tags = TagList [''c'']\<rparr>,
      \<lparr>cluster = - 1, tags = TagList [''z'']\<rparr>,
      \<lparr>cluster = 0, tags = TagList [''b'', ''c'', ''d'']\<rparr>,
      \<lparr>cluster = 2, tags = NotAList True\<rparr>] {''d''} 2
     = [(0, [''a'', ''b'']), (1, [''c'']), (2, [])]
   \<and> (0, [''a'', ''b'']) \<in> set [(0, [''a'', ''b'']), (1, [''c'']), (2, [])]
   \<and> top_tags_spec [''a'', ''b'', ''a'', ''b'', ''c''] 2 [''a'', ''b'']"
proof -
  let ?sample = "[\<lparr>cluster = 0, tags = TagList [''a'', ''b'', ''a'']\<rparr>,
      \<lparr>cluster = 1, tags = TagList [''c'']\<rparr>,
      \<lparr>cluster = - 1, tags = TagList [''z'']\<rparr>,
      \<lparr>cluster = 0, tags = TagList [''b'', ''c'', ''d'']\<rparr>,
      \<lparr>cluster = 2, tags = NotAList True\<rparr>]"
  have e: "get_cluster_top_tags ?sample {''d''} 2 = [(0, [''a'', ''b'']), (1, [''c'']), (2, [])]"
    by code_simp
  have m: "(0, [''a'', ''b'']) \<in> set (get_cluster_top_tags ?sample {''d''} 2)"
    unfolding e by simp
  have g: "[t \<leftarrow> concat (map (\<lambda>r. elements (tags r)) [r \<leftarrow> ?sample. cluster r = 0]). t \<notin> {''d''}]
      = [''a'', ''b'', ''a'', ''b'', ''c'']"
    by simp
  from top_tags_of_each_cluster [of ?sample "{''d''}" 2] m
  have "top_tags_spec
      [t \<leftarrow> concat (map (\<lambda>r. elements (tags r)) [r \<leftarrow> ?sample. cluster r = 0]). t \<notin> {''d''}]
      2 [''a'', ''b'']"
    by blast
  then have "top_tags_spec [''a'', ''b'', ''a'', ''b'', ''c''] 2 [''a'', ''b'']"
    unfolding g .
  with e show ?thesis by simp
qed

end
